theory Spec2Isabelle
  imports Main "HOL-Library.Char_ord"
begin

section \<open>Go strings, byte slices and UTF-8\<close>

text \<open>
  A Go \<^verbatim>\<open>string\<close> and a \<^verbatim>\<open>[]byte\<close> are sequences of bytes, and \<^verbatim>\<open>len\<close> counts
  bytes. Both are modelled as \<^typ>\<open>string\<close>, a list of 8-bit characters. A rune is an
  \<^verbatim>\<open>int32\<close>; it is modelled as an \<^typ>\<open>int\<close>.
\<close>

type_synonym rune = int

definition RuneError :: rune where
  "RuneError = 0xFFFD"

definition byte :: "char \<Rightarrow> int" where
  "byte c = of_char c"

text \<open>
  \<^verbatim>\<open>utf8.DecodeRune(p)\<close> of the Go standard library: the first rune of \<open>p\<close> and its
  width in bytes. An encoding that is invalid, too short, over-long, a surrogate or out
  of range decodes as \<open>(RuneError, 1)\<close>.
\<close>

definition DecodeRune :: "string \<Rightarrow> rune \<times> nat" where
  "DecodeRune p =
     (case p of
        [] \<Rightarrow> (RuneError, 0)
      | p0 # _ \<Rightarrow>
          let b0 = byte p0 in
          if b0 < 0x80 then (b0, 1)
          else if b0 < 0xC2 \<or> 0xF4 < b0 then (RuneError, 1)
          else
            let sz = (if b0 < 0xE0 then 2 else if b0 < 0xF0 then 3 else (4::nat));
                lo = (if b0 = 0xE0 then 0xA0 else if b0 = 0xF0 then 0x90 else 0x80);
                hi = (if b0 = 0xED then 0x9F else if b0 = 0xF4 then 0x8F else 0xBF)
            in
              if length p < sz then (RuneError, 1)
              else
                let b1 = byte (p ! 1) in
                if b1 < lo \<or> hi < b1 then (RuneError, 1)
                else if sz \<le> 2 then ((b0 mod 32) * 64 + b1 mod 64, 2)
                else
                  let b2 = byte (p ! 2) in
                  if b2 < 0x80 \<or> 0xBF < b2 then (RuneError, 1)
                  else if sz \<le> 3 then
                    ((b0 mod 16) * 4096 + (b1 mod 64) * 64 + b2 mod 64, 3)
                  else
                    let b3 = byte (p ! 3) in
                    if b3 < 0x80 \<or> 0xBF < b3 then (RuneError, 1)
                    else
                      ((b0 mod 8) * 262144 + (b1 mod 64) * 4096 + (b2 mod 64) * 64
                        + b3 mod 64, 4))"

text \<open>
  \<^verbatim>\<open>utf8.EncodeRune\<close>: the UTF-8 bytes of a rune; a surrogate or a rune beyond
  U+10FFFF is written as \<open>RuneError\<close>, three bytes.
\<close>

definition EncodeRune :: "rune \<Rightarrow> string" where
  "EncodeRune r =
     (if 0 \<le> r \<and> r \<le> 0x7F then [char_of r]
      else if 0 \<le> r \<and> r \<le> 0x7FF then [char_of (0xC0 + r div 64), char_of (0x80 + r mod 64)]
      else if r < 0 \<or> 0x10FFFF < r \<or> (0xD800 \<le> r \<and> r \<le> 0xDFFF) then
        [char_of (0xEF::int), char_of (0xBF::int), char_of (0xBD::int)]
      else if r \<le> 0xFFFF then
        [char_of (0xE0 + r div 4096), char_of (0x80 + (r div 64) mod 64),
         char_of (0x80 + r mod 64)]
      else
        [char_of (0xF0 + r div 262144), char_of (0x80 + (r div 4096) mod 64),
         char_of (0x80 + (r div 64) mod 64), char_of (0x80 + r mod 64)])"

text \<open>
  \<^verbatim>\<open>unicode.ToLower(r)\<close>: an ASCII rune is handled in place (\<open>A\<close>..\<open>Z\<close> move by
  \<open>'a' - 'A'\<close>); any other rune is looked up in the case table of package
  \<^verbatim>\<open>unicode\<close> and returned unchanged when the table has no entry for it. The table is
  not part of this repository: it is the parameter \<open>caseTab\<close>.
\<close>

definition unicode_ToLower :: "(rune \<rightharpoonup> rune) \<Rightarrow> rune \<Rightarrow> rune" where
  "unicode_ToLower caseTab r =
     (if r \<le> 0x7F then (if 0x41 \<le> r \<and> r \<le> 0x5A then r + (0x61 - 0x41) else r)
      else (case caseTab r of None \<Rightarrow> r | Some l \<Rightarrow> l))"

text \<open>
  \<^verbatim>\<open>bytes.Map(mapping, s)\<close>: decode \<open>s\<close> rune by rune, apply \<open>mapping\<close>, and append the
  encoding of every rune that is not negative. The loop \<^verbatim>\<open>for i := 0; i < len(s); { ...; i += wid }\<close>
  is the recursion on the rest of the slice; \<open>wid\<close> is at least 1 there, so after the
  head the loop skips \<open>wid - 1\<close> more bytes.
\<close>

fun bytes_Map :: "(rune \<Rightarrow> rune) \<Rightarrow> string \<Rightarrow> string" where
  "bytes_Map mapping [] = []"
| "bytes_Map mapping (c # cs) =
     (let (r0, wid) = (if byte c \<ge> 0x80 then DecodeRune (c # cs) else (byte c, 1));
          r = mapping r0
      in (if r \<ge> 0 then EncodeRune r else []) @ bytes_Map mapping (drop (wid - 1) cs))"

text \<open>\<^verbatim>\<open>bytes.ToLower(s)\<close> is \<^verbatim>\<open>Map(unicode.ToLower, s)\<close>.\<close>

definition bytes_ToLower :: "(rune \<rightharpoonup> rune) \<Rightarrow> string \<Rightarrow> string" where
  "bytes_ToLower caseTab s = bytes_Map (unicode_ToLower caseTab) s"

section \<open>Naming normalizer\<close>

text \<open>\<^verbatim>\<open>errors.New(msg)\<close>: an error value carrying its message.\<close>

datatype error = Error string

text \<open>
  \<^verbatim>\<open>normalizeDatabaseName\<close> (output\_td.go, lines 114--133). The Go result pair
  \<^verbatim>\<open>(string, error)\<close> is the sum \<open>error + string\<close>. The test of the final loop is
  written as in the source, with its disjunction \<^verbatim>\<open>c >= 'a' || c <= 'z'\<close>.
\<close>

definition normalizeDatabaseName :: "(rune \<rightharpoonup> rune) \<Rightarrow> string \<Rightarrow> error + string" where
  "normalizeDatabaseName caseTab name =
     (if length name = 0 then Inl (Error ''Empty name is not allowed'')
      else
        let name1 = (if length name < 3 then name @ take (3 - length name) ''___'' else name);
            name2 = (if 255 < length name1 then take 253 name1 @ ''__'' else name1);
            name3 = bytes_ToLower caseTab name2
        in Inr (map (\<lambda>c. if \<not> ((c \<ge> CHR ''a'' \<or> c \<le> CHR ''z'')
                                  \<or> (c \<ge> CHR ''0'' \<and> c \<le> CHR ''9'') \<or> c = CHR ''_'')
                           then CHR ''_'' else c) name3))"

definition normalizeTableName :: "(rune \<rightharpoonup> rune) \<Rightarrow> string \<Rightarrow> error + string" where
  "normalizeTableName caseTab name = normalizeDatabaseName caseTab name"

text \<open>
  The character class \<^verbatim>\<open>[a-z0-9_]\<close> that the specification of the normalizer names. It
  is written from the specification, not from the source, as the yardstick for the
  normalizer's output.
\<close>

definition allowedChar :: "char \<Rightarrow> bool" where
  "allowedChar c \<longleftrightarrow>
     (CHR ''a'' \<le> c \<and> c \<le> CHR ''z'') \<or> (CHR ''0'' \<le> c \<and> c \<le> CHR ''9'') \<or> c = CHR ''_''"

section \<open>Destination resolution\<close>

text \<open>
  \<^verbatim>\<open>strings.Index(s, sep)\<close>: the index of the first occurrence of \<open>sep\<close> in \<open>s\<close>;
  \<open>None\<close> stands for Go's \<open>-1\<close>.
\<close>

fun strings_Index :: "string \<Rightarrow> string \<Rightarrow> nat option" where
  "strings_Index [] sep = (if sep = [] then Some 0 else None)"
| "strings_Index (c # cs) sep =
     (if take (length sep) (c # cs) = sep then Some 0
      else map_option Suc (strings_Index cs sep))"

text \<open>
  \<^verbatim>\<open>strings.SplitN(s, sep, n)\<close> for a non-empty separator and \<open>n \<ge> 0\<close> (the program
  calls it with \<^verbatim>\<open>"."\<close> and \<open>2\<close>). As in the library's \<^verbatim>\<open>genSplit\<close>, \<open>n\<close> is capped at
  \<open>len(s) + 1\<close>, at most \<open>n - 1\<close> separators are consumed from the left, and the rest of
  the string is the last element.
\<close>

fun genSplit :: "string \<Rightarrow> string \<Rightarrow> nat \<Rightarrow> string list" where
  "genSplit s sep 0 = [s]"
| "genSplit s sep (Suc k) =
     (case strings_Index s sep of
        None \<Rightarrow> [s]
      | Some m \<Rightarrow> take m s # genSplit (drop (m + length sep) s) sep k)"

definition strings_SplitN :: "string \<Rightarrow> string \<Rightarrow> nat \<Rightarrow> string list" where
  "strings_SplitN s sep n =
     (if n = 0 then [] else genSplit s sep (min n (length s + 1) - 1))"

text \<open>
  The first half of \<^verbatim>\<open>getSpooler\<close> (output\_td.go, lines 213--231): the pair
  \<^verbatim>\<open>(databaseName, tableName)\<close> as it stands just before normalization. \<open>db\<close> and
  \<open>tbl\<close> are \<^verbatim>\<open>daemon.output.databaseName\<close> and \<^verbatim>\<open>daemon.output.tableName\<close>.
\<close>

definition resolveNames :: "string \<Rightarrow> string \<Rightarrow> string \<Rightarrow> string \<times> string" where
  "resolveNames db tbl tag =
     (if db = ''*'' then
        (if tbl = ''*'' then
           (let c = strings_SplitN tag ''.'' 2 in
            if length c = 1 then (db, c ! 0)
            else if length c = 2 then (c ! 0, c ! 1)
            else (db, tbl))
         else (tag, tbl))
      else
        (if tbl = ''*'' then (db, tag) else (db, tbl)))"

section \<open>Spooler registry\<close>

text \<open>
  A \<^verbatim>\<open>*tdOutputSpooler\<close> is a reference: the index of the spooler among the objects the
  daemon has allocated. Of a spooler only the fields set from the arguments of
  \<^verbatim>\<open>newTDOutputSpooler\<close> are kept; its journal is the one
  \<^verbatim>\<open>journalGroup.GetJournal(key)\<close> hands out, named by that key.
\<close>

type_synonym ref = nat

record tdOutputSpooler =
  databaseName :: string
  tableName :: string
  key :: string
  journal :: string

text \<open>
  The daemon: the two patterns it reads from its output
  (\<^verbatim>\<open>daemon.output.databaseName\<close>, \<^verbatim>\<open>daemon.output.tableName\<close>), the registry map
  \<^verbatim>\<open>spoolers\<close>, the spoolers allocated so far, the counter of the wait group \<^verbatim>\<open>wg\<close>,
  and the spoolers whose \<^verbatim>\<open>handle\<close> loop has been started with \<^verbatim>\<open>go\<close>.
\<close>

record tdOutputSpoolerDaemon =
  output_databaseName :: string
  output_tableName :: string
  spoolers :: "string \<rightharpoonup> ref"
  objects :: "tdOutputSpooler list"
  wg :: nat
  started :: "ref list"

definition newTDOutputSpoolerDaemon :: "string \<Rightarrow> string \<Rightarrow> tdOutputSpoolerDaemon" where
  "newTDOutputSpoolerDaemon db tbl =
     \<lparr>output_databaseName = db, output_tableName = tbl, spoolers = Map.empty,
      objects = [], wg = 0, started = []\<rparr>"

definition newTDOutputSpooler :: "string \<Rightarrow> string \<Rightarrow> string \<Rightarrow> tdOutputSpooler" where
  "newTDOutputSpooler db tbl k =
     \<lparr>databaseName = db, tableName = tbl, key = k, journal = k\<rparr>"

text \<open>
  \<^verbatim>\<open>spawnSpooler\<close> (lines 153--166). The body runs between \<^verbatim>\<open>spoolersMtx.Lock()\<close> and
  the deferred \<^verbatim>\<open>Unlock()\<close>, so it is one atomic step on the daemon. The new spooler is
  stored under \<^verbatim>\<open>spooler.key\<close>.
\<close>

definition spawnSpooler ::
  "tdOutputSpoolerDaemon \<Rightarrow> string \<Rightarrow> string \<Rightarrow> string \<Rightarrow> ref \<times> tdOutputSpoolerDaemon" where
  "spawnSpooler daemon db tbl k =
     (case spoolers daemon k of
        Some spooler \<Rightarrow> (spooler, daemon)
      | None \<Rightarrow>
          let obj = newTDOutputSpooler db tbl k;
              spooler = length (objects daemon)
          in (spooler,
              daemon\<lparr>objects := objects daemon @ [obj],
                     spoolers := (spoolers daemon)(key obj \<mapsto> spooler),
                     wg := wg daemon + 1,
                     started := started daemon @ [spooler]\<rparr>))"

text \<open>Requests served one after the other, each under the lock.\<close>

fun spawnSpoolers ::
  "tdOutputSpoolerDaemon \<Rightarrow> (string \<times> string \<times> string) list
     \<Rightarrow> ref list \<times> tdOutputSpoolerDaemon" where
  "spawnSpoolers daemon [] = ([], daemon)"
| "spawnSpoolers daemon ((db, tbl, k) # reqs) =
     (let (r, daemon1) = spawnSpooler daemon db tbl k;
          (rs, daemon2) = spawnSpoolers daemon1 reqs
      in (r # rs, daemon2))"

text \<open>
  The registry is consistent when the map and the allocated spoolers describe each
  other: every entry of the map points to an allocated spooler that carries the entry's
  key, every allocated spooler is the entry of its own key, and each allocated spooler
  has been counted in \<^verbatim>\<open>wg\<close> and started once, in the order of allocation.
\<close>

definition registry_inv :: "tdOutputSpoolerDaemon \<Rightarrow> bool" where
  "registry_inv d \<longleftrightarrow>
     (\<forall>k r. spoolers d k = Some r \<longrightarrow> r < length (objects d) \<and> key (objects d ! r) = k)
     \<and> (\<forall>r < length (objects d). spoolers d (key (objects d ! r)) = Some r)
     \<and> wg d = length (objects d)
     \<and> started d = [0..<length (objects d)]"

text \<open>
  \<^verbatim>\<open>getSpooler\<close> (lines 212--242): resolution, normalization of both names, the key, and
  the registry lookup. An error return leaves the daemon as it was.
\<close>

definition getSpooler ::
  "(rune \<rightharpoonup> rune) \<Rightarrow> tdOutputSpoolerDaemon \<Rightarrow> string
     \<Rightarrow> (error + ref) \<times> tdOutputSpoolerDaemon" where
  "getSpooler caseTab daemon tag =
     (let (db, tbl) = resolveNames (output_databaseName daemon) (output_tableName daemon) tag in
      case normalizeDatabaseName caseTab db of
        Inl err \<Rightarrow> (Inl err, daemon)
      | Inr db' \<Rightarrow>
          (case normalizeTableName caseTab tbl of
             Inl err \<Rightarrow> (Inl err, daemon)
           | Inr tbl' \<Rightarrow>
               let k = db' @ ''.'' @ tbl';
                   (spooler, daemon') = spawnSpooler daemon db' tbl' k
               in (Inr spooler, daemon')))"

section \<open>Record encoding\<close>

text \<open>
  A value of type \<^verbatim>\<open>interface{}\<close> is either a boxed timestamp or any other value. The
  types of a timestamp and of a field value are declared outside this file; they are the
  type parameters \<open>'t\<close> and \<open>'v\<close>.
\<close>

datatype ('t, 'v) iface = Of_Timestamp 't | Of_Value 'v

record ('t, 'v) TinyFluentRecord =
  Timestamp :: 't
  Data :: "string \<rightharpoonup> ('t, 'v) iface"

record ('t, 'v) FluentRecordSet =
  Tag :: string
  Records :: "('t, 'v) TinyFluentRecord list"

text \<open>
  The msgpack encoder belongs to an external library. \<^verbatim>\<open>encoder.Encode(e)\<close> either
  fails with an error or appends the wire form of \<open>e\<close> to the buffer behind the encoder.
  Which values it rejects is the parameter \<open>rejects\<close>; the buffer is kept as the sequence
  of the top-level values written to it.
\<close>

type_synonym ('t, 'v) entry = "string \<rightharpoonup> ('t, 'v) iface"

definition Encode ::
  "(('t, 'v) entry \<Rightarrow> error option) \<Rightarrow> ('t, 'v) entry list \<Rightarrow> ('t, 'v) entry
     \<Rightarrow> error option \<times> ('t, 'v) entry list" where
  "Encode rejects buffer e =
     (case rejects e of Some err \<Rightarrow> (Some err, buffer) | None \<Rightarrow> (None, buffer @ [e]))"

text \<open>
  The map \<open>e\<close> that \<^verbatim>\<open>encodeRecords\<close> builds for one record (lines 62--65): it starts
  as \<^verbatim>\<open>{"time": record.Timestamp}\<close>, and the loop
  \<^verbatim>\<open>for k, v := range record.Data { e[k] = v }\<close> then stores every pair of \<open>Data\<close> into
  it, which is the override \<open>++\<close> of maps.
\<close>

definition recordEntry :: "('t, 'v) TinyFluentRecord \<Rightarrow> ('t, 'v) entry" where
  "recordEntry record = [''time'' \<mapsto> Of_Timestamp (Timestamp record)] ++ Data record"

text \<open>
  \<^verbatim>\<open>encodeRecords\<close> (lines 60--72): each record's map is handed to the encoder, in
  order; the first error ends the loop and is returned. The result is the returned
  error (\<open>None\<close> for \<^verbatim>\<open>nil\<close>) and the buffer.
\<close>

fun encodeRecords ::
  "(('t, 'v) entry \<Rightarrow> error option) \<Rightarrow> ('t, 'v) entry list \<Rightarrow> ('t, 'v) TinyFluentRecord list
     \<Rightarrow> error option \<times> ('t, 'v) entry list" where
  "encodeRecords rejects buffer [] = (None, buffer)"
| "encodeRecords rejects buffer (record # records) =
     (let e = recordEntry record in
      case Encode rejects buffer e of
        (Some err, buffer') \<Rightarrow> (Some err, buffer')
      | (None, buffer') \<Rightarrow> encodeRecords rejects buffer' records)"

section \<open>Emitter\<close>

text \<open>
  What the emitter goroutine acts on: the daemon, the successful calls of
  \<^verbatim>\<open>spooler.journal.Write(buffer.Bytes())\<close> (the spooler and the bytes), and the errors
  passed to \<^verbatim>\<open>logger.Error\<close>.
\<close>

record ('t, 'v) emitter =
  daemon :: tdOutputSpoolerDaemon
  journalWrites :: "(ref \<times> ('t, 'v) entry list) list"
  errorLog :: "error list"

text \<open>
  One iteration of the loop of \<^verbatim>\<open>spawnEmitter\<close> (lines 255--272): the buffer is reset;
  the inner function returns at the first error, which is logged before the loop
  continues with the next record set. \<^verbatim>\<open>Journal.Write\<close> is external; which writes it
  refuses is the parameter \<open>writeFails\<close>.
\<close>

definition processRecordSet ::
  "(rune \<rightharpoonup> rune) \<Rightarrow> (('t, 'v) entry \<Rightarrow> error option)
     \<Rightarrow> (ref \<Rightarrow> ('t, 'v) entry list \<Rightarrow> error option)
     \<Rightarrow> ('t, 'v) emitter \<Rightarrow> ('t, 'v) FluentRecordSet \<Rightarrow> ('t, 'v) emitter" where
  "processRecordSet caseTab rejects writeFails st recordSet =
     (case getSpooler caseTab (daemon st) (Tag recordSet) of
        (Inl err, d) \<Rightarrow> st\<lparr>daemon := d, errorLog := errorLog st @ [err]\<rparr>
      | (Inr spooler, d) \<Rightarrow>
          (case encodeRecords rejects [] (Records recordSet) of
             (Some err, buffer) \<Rightarrow> st\<lparr>daemon := d, errorLog := errorLog st @ [err]\<rparr>
           | (None, buffer) \<Rightarrow>
               (case writeFails spooler buffer of
                  Some err \<Rightarrow> st\<lparr>daemon := d, errorLog := errorLog st @ [err]\<rparr>
                | None \<Rightarrow>
                    st\<lparr>daemon := d,
                       journalWrites := journalWrites st @ [(spooler, buffer)]\<rparr>)))"

text \<open>
  \<^verbatim>\<open>for recordSet := range output.emitterChan\<close>: the record sets received until the
  channel is closed, in order.
\<close>

fun emitterLoop ::
  "(rune \<rightharpoonup> rune) \<Rightarrow> (('t, 'v) entry \<Rightarrow> error option)
     \<Rightarrow> (ref \<Rightarrow> ('t, 'v) entry list \<Rightarrow> error option)
     \<Rightarrow> ('t, 'v) emitter \<Rightarrow> ('t, 'v) FluentRecordSet list \<Rightarrow> ('t, 'v) emitter" where
  "emitterLoop caseTab rejects writeFails st [] = st"
| "emitterLoop caseTab rejects writeFails st (recordSet # rest) =
     emitterLoop caseTab rejects writeFails
       (processRecordSet caseTab rejects writeFails st recordSet) rest"

section \<open>Output facade\<close>

text \<open>
  A Go channel: whether it has been closed, and the values sent and not yet received.
  Sending on a closed channel panics, and so does closing a closed channel. A send on
  the open channel is kept in the queue until the emitter receives it.
\<close>

datatype panic = Panic string

record 'a chan =
  closed :: bool
  queue :: "'a list"

definition chan_send :: "'a chan \<Rightarrow> 'a \<Rightarrow> panic + 'a chan" where
  "chan_send ch x =
     (if closed ch then Inl (Panic ''send on closed channel'')
      else Inr (ch\<lparr>queue := queue ch @ [x]\<rparr>))"

definition chan_close :: "'a chan \<Rightarrow> panic + 'a chan" where
  "chan_close ch =
     (if closed ch then Inl (Panic ''close of closed channel'')
      else Inr (ch\<lparr>closed := True\<rparr>))"

text \<open>
  The fields of \<^verbatim>\<open>TDOutput\<close> that \<^verbatim>\<open>Emit\<close> and \<^verbatim>\<open>Stop\<close> touch. \<^verbatim>\<open>isShuttingDown\<close> is an
  \<^verbatim>\<open>unsafe.Pointer\<close> that only ever holds \<^verbatim>\<open>uintptr(0)\<close> or \<^verbatim>\<open>uintptr(1)\<close>; it is kept as
  that number. \<^verbatim>\<open>NewTDOutput\<close> creates the channel open and the pointer 0.
\<close>

record 'a TDOutput =
  emitterChan :: "'a chan"
  isShuttingDown :: nat

definition NewTDOutput :: "'a TDOutput" where
  "NewTDOutput = \<lparr>emitterChan = \<lparr>closed = False, queue = []\<rparr>, isShuttingDown = 0\<rparr>"

text \<open>
  \<^verbatim>\<open>atomic.CompareAndSwapPointer(addr, old, new)\<close> on the current value of the pointer:
  whether it swapped, and the value afterwards.
\<close>

definition CompareAndSwapPointer :: "nat \<Rightarrow> nat \<Rightarrow> nat \<Rightarrow> bool \<times> nat" where
  "CompareAndSwapPointer cur old new = (if cur = old then (True, new) else (False, cur))"

text \<open>\<^verbatim>\<open>Stop\<close> (lines 292--296).\<close>

definition Stop :: "'a TDOutput \<Rightarrow> panic + 'a TDOutput" where
  "Stop output =
     (let (swapped, p) = CompareAndSwapPointer (isShuttingDown output) 0 1;
          output1 = output\<lparr>isShuttingDown := p\<rparr>
      in if swapped then
           (case chan_close (emitterChan output1) of
              Inl pn \<Rightarrow> Inl pn
            | Inr ch \<Rightarrow> Inr (output1\<lparr>emitterChan := ch\<rparr>))
         else Inr output1)"

text \<open>A number of calls of \<^verbatim>\<open>Stop\<close> one after the other; a panic ends the sequence.\<close>

fun Stop_times :: "nat \<Rightarrow> 'a TDOutput \<Rightarrow> panic + 'a TDOutput" where
  "Stop_times 0 output = Inr output"
| "Stop_times (Suc n) output =
     (case Stop output of Inl pn \<Rightarrow> Inl pn | Inr output' \<Rightarrow> Stop_times n output')"

text \<open>
  The loop of \<^verbatim>\<open>Emit\<close> (lines 282--284): the sends in order; a panic stops the loop and
  leaves the channel as the sends before it made it.
\<close>

fun Emit_loop :: "'a chan \<Rightarrow> 'a list \<Rightarrow> panic option \<times> 'a chan" where
  "Emit_loop ch [] = (None, ch)"
| "Emit_loop ch (recordSet # recordSets) =
     (case chan_send ch recordSet of
        Inl pn \<Rightarrow> (Some pn, ch)
      | Inr ch' \<Rightarrow> Emit_loop ch' recordSets)"

text \<open>
  \<^verbatim>\<open>Emit\<close> (lines 278--286). Its result is \<open>Inl\<close> of a panic that leaves the call, or
  \<open>Inr\<close> of the returned error (\<open>None\<close> for \<^verbatim>\<open>nil\<close>). The deferred function calls
  \<^verbatim>\<open>recover()\<close>: a panic of the body stops there and \<^verbatim>\<open>Emit\<close> returns the zero value of
  its result, \<^verbatim>\<open>nil\<close>; without a panic the body returns \<^verbatim>\<open>nil\<close> itself.
\<close>

definition Emit :: "'a TDOutput \<Rightarrow> 'a list \<Rightarrow> (panic + error option) \<times> 'a TDOutput" where
  "Emit output recordSets =
     (case Emit_loop (emitterChan output) recordSets of
        (Some pn, ch) \<Rightarrow> (Inr None, output\<lparr>emitterChan := ch\<rparr>)
      | (None, ch) \<Rightarrow> (Inr None, output\<lparr>emitterChan := ch\<rparr>))"

section \<open>Flush handler\<close>

text \<open>
  The chunk handler that \<^verbatim>\<open>tdOutputSpooler.handle\<close> passes to \<^verbatim>\<open>journal.Flush\<close>
  (lines 87--103). The chunk, the logger and the client are external objects, so the
  handler is modelled by the calls it makes on them, in order, and by its outcome. Of a
  chunk the handler uses \<^verbatim>\<open>String()\<close>, \<^verbatim>\<open>Id()\<close> and \<^verbatim>\<open>Dispose()\<close>; the blob passed to
  \<^verbatim>\<open>Import\<close> wraps the chunk and is named by the chunk's id.
\<close>

record JournalChunk =
  chunk_String :: string
  chunk_Id :: string

datatype call =
    is_Logger_Info: Logger_Info string
  | is_Client_Import: Client_Import string string string string string
  | is_Chunk_Dispose: Chunk_Dispose string

text \<open>How a Go call ends: it returns a value, or it panics.\<close>

datatype 'a outcome = Returns 'a | Panics panic

text \<open>
  \<^verbatim>\<open>defer\<close>: the deferred call runs when the surrounding function returns and also when
  it panics, after the body in both cases; the outcome of the function is the outcome of
  its body.
\<close>

definition deferring :: "call \<Rightarrow> 'a outcome \<times> call list \<Rightarrow> 'a outcome \<times> call list" where
  "deferring d body = (fst body, snd body @ [d])"

text \<open>
  The handler: \<^verbatim>\<open>defer chunk.Dispose()\<close>, then the log line, then the upload, whose error
  is returned. \<open>Import\<close> is the outcome of \<^verbatim>\<open>spooler.client.Import\<close> on its five
  arguments: \<open>Returns None\<close> for a \<^verbatim>\<open>nil\<close> error, \<open>Returns (Some err)\<close> for an error.
\<close>

definition flushHandler ::
  "(string \<Rightarrow> string \<Rightarrow> string \<Rightarrow> string \<Rightarrow> string \<Rightarrow> error option outcome)
     \<Rightarrow> tdOutputSpooler \<Rightarrow> JournalChunk \<Rightarrow> error option outcome \<times> call list" where
  "flushHandler Import spooler chunk =
     deferring (Chunk_Dispose (chunk_Id chunk))
       (let info = Logger_Info (''Flushing chunk '' @ chunk_String chunk);
            err = Import (databaseName spooler) (tableName spooler) ''msgpack.gz''
                    (chunk_Id chunk) (chunk_Id chunk)
        in (err,
            [info,
             Client_Import (databaseName spooler) (tableName spooler) ''msgpack.gz''
               (chunk_Id chunk) (chunk_Id chunk)]))"

section \<open>Properties of the naming normalizer\<close>

text \<open>
  The test of the final loop holds for every byte: a byte below \<open>a\<close> is also below
  \<open>z\<close>. The loop therefore never writes an underscore.
\<close>

lemma filter_test_true:
  "((c::char) \<ge> CHR ''a'' \<or> c \<le> CHR ''z'') \<or> (c \<ge> CHR ''0'' \<and> c \<le> CHR ''9'') \<or> c = CHR ''_''"
proof (cases "CHR ''a'' \<le> c")
  case True
  then show ?thesis by simp
next
  case False
  then have "c \<le> CHR ''a''" by simp
  moreover have "CHR ''a'' \<le> CHR ''z''" by simp
  ultimately have "c \<le> CHR ''z''" by (rule order_trans)
  then show ?thesis by simp
qed

lemma normalize_nonempty:
  "name \<noteq> [] \<Longrightarrow> normalizeDatabaseName tab name =
     Inr (bytes_ToLower tab
            (let name1 = (if length name < 3 then name @ take (3 - length name) ''___'' else name)
             in if 255 < length name1 then take 253 name1 @ ''__'' else name1))"
  using filter_test_true by (simp add: normalizeDatabaseName_def Let_def)

lemma normalize_empty:
  "normalizeDatabaseName tab [] = Inl (Error ''Empty name is not allowed'')"
  by (simp add: normalizeDatabaseName_def)

lemma normalize_isl: "isl (normalizeDatabaseName tab name) \<longleftrightarrow> name = []"
  by (cases "name = []") (simp_all add: normalize_empty normalize_nonempty)

lemma normalize_Inl:
  "normalizeDatabaseName tab name = Inl err \<longleftrightarrow> name = [] \<and> err = Error ''Empty name is not allowed''"
  by (cases "name = []") (auto simp add: normalize_empty normalize_nonempty)

lemma byte_range: "0 \<le> byte c \<and> byte c < 256"
proof -
  have "byte c = int (of_char c)"
    by (simp add: byte_def of_nat_of_char)
  moreover have "of_char c < (256::nat)"
    by (rule nat_of_char_less_256)
  ultimately show ?thesis by simp
qed

text \<open>On ASCII bytes \<^verbatim>\<open>bytes.ToLower\<close> works byte by byte and keeps the length.\<close>

lemma ToLower_ascii_step:
  "byte c < 0x80 \<Longrightarrow>
   bytes_Map (unicode_ToLower tab) (c # cs) =
     (if 0x41 \<le> byte c \<and> byte c \<le> 0x5A then char_of (byte c + 0x20) else c)
       # bytes_Map (unicode_ToLower tab) cs"
  using byte_range [of c]
  by (simp add: unicode_ToLower_def EncodeRune_def byte_def)

lemma ToLower_ascii_length:
  "\<forall>c\<in>set s. byte c < 0x80 \<Longrightarrow> length (bytes_Map (unicode_ToLower tab) s) = length s"
  by (induction s) (simp_all add: ToLower_ascii_step del: bytes_Map.simps(2))

lemma ToLower_ascii_append:
  "\<forall>c\<in>set s. byte c < 0x80 \<Longrightarrow>
   bytes_Map (unicode_ToLower tab) (s @ t) =
     bytes_Map (unicode_ToLower tab) s @ bytes_Map (unicode_ToLower tab) t"
  by (induction s) (simp_all add: ToLower_ascii_step del: bytes_Map.simps(2))

lemma ToLower_underscores:
  "bytes_Map (unicode_ToLower tab) (replicate n CHR ''_'') = replicate n CHR ''_''"
  by (induction n) (simp_all add: ToLower_ascii_step byte_def del: bytes_Map.simps(2))

text \<open>
  A rune that starts inside \<open>s\<close> never swallows an ASCII byte that follows \<open>s\<close>: a
  continuation byte is at least \<open>0x80\<close>. So whatever bytes \<open>s\<close> holds, the image of an
  ASCII tail stays at the end of the result.
\<close>

lemma DecodeRune_width_le:
  assumes "byte t0 < 0x80"
  shows "snd (DecodeRune (c # cs @ t0 # ts)) - 1 \<le> length cs"
proof (cases cs)
  case Nil
  with assms show ?thesis by (simp add: DecodeRune_def Let_def)
next
  case (Cons c1 cs1)
  show ?thesis
  proof (cases cs1)
    case Nil
    with Cons assms show ?thesis by (simp add: DecodeRune_def Let_def)
  next
    case (Cons c2 cs2)
    note C2 = this
    show ?thesis
    proof (cases cs2)
      case Nil
      with C2 \<open>cs = c1 # cs1\<close> assms show ?thesis by (simp add: DecodeRune_def Let_def)
    next
      case (Cons c3 cs3)
      with C2 \<open>cs = c1 # cs1\<close> show ?thesis by (simp add: DecodeRune_def Let_def)
    qed
  qed
qed

lemma bytes_Map_before_ascii:
  assumes "byte t0 < 0x80"
  shows "\<exists>u. bytes_Map f (s @ t0 # ts) = u @ bytes_Map f (t0 # ts)"
proof (induction "length s" arbitrary: s rule: less_induct)
  case less
  show ?case
  proof (cases s)
    case Nil
    then show ?thesis by simp
  next
    case (Cons c cs)
    define wid where "wid = (if byte c \<ge> 0x80 then snd (DecodeRune (c # cs @ t0 # ts)) else 1)"
    have "wid - 1 \<le> length cs"
      using DecodeRune_width_le [OF assms, of c cs ts] by (simp add: wid_def)
    then have d: "drop (wid - 1) (cs @ t0 # ts) = drop (wid - 1) cs @ t0 # ts"
      by simp
    have "length (drop (wid - 1) cs) < length s"
      using Cons by simp
    from less [OF this] obtain u where
      u: "bytes_Map f (drop (wid - 1) cs @ t0 # ts) = u @ bytes_Map f (t0 # ts)"
      by blast
    have "\<exists>e. bytes_Map f (c # cs @ t0 # ts) = e @ bytes_Map f (drop (wid - 1) (cs @ t0 # ts))"
      by (simp add: wid_def Let_def split: prod.split)
    then show ?thesis
      using u d Cons by auto
  qed
qed

lemma take_underscores: "n \<le> 3 \<Longrightarrow> take n ''___'' = replicate n CHR ''_''"
proof -
  have "''___'' = replicate 3 CHR ''_''" by (simp add: numeral_3_eq_3)
  then show "n \<le> 3 \<Longrightarrow> take n ''___'' = replicate n CHR ''_''"
    by (simp only: take_replicate min_absorb2 min_absorb1) 
qed

lemma normalize_short:
  assumes "1 \<le> length name" "length name \<le> 2" "\<forall>c\<in>set name. byte c < 0x80"
  shows "normalizeDatabaseName tab name =
           Inr (bytes_ToLower tab name @ replicate (3 - length name) CHR ''_'')"
    and "length (bytes_ToLower tab name) = length name"
proof -
  from assms(1) have ne: "name \<noteq> []" by auto
  have tk: "take (3 - length name) ''___'' = replicate (3 - length name) CHR ''_''"
    by (rule take_underscores) simp
  show "normalizeDatabaseName tab name =
           Inr (bytes_ToLower tab name @ replicate (3 - length name) CHR ''_'')"
    using assms(2,3)
    by (simp add: normalize_nonempty [OF ne] tk bytes_ToLower_def ToLower_ascii_append
        ToLower_underscores del: take_Cons_numeral)
  show "length (bytes_ToLower tab name) = length name"
    using assms(3) by (simp add: bytes_ToLower_def ToLower_ascii_length)
qed

lemma normalize_long:
  assumes "255 < length name"
  shows "\<exists>u. normalizeDatabaseName tab name = Inr (u @ ''__'')
           \<and> ((\<forall>c\<in>set (take 253 name). byte c < 0x80) \<longrightarrow> length u = 253)"
proof -
  from assms have ne: "name \<noteq> []" by auto
  have n: "normalizeDatabaseName tab name = Inr (bytes_ToLower tab (take 253 name @ ''__''))"
    using assms by (simp add: normalize_nonempty [OF ne])
  have us: "bytes_Map (unicode_ToLower tab) ''__'' = ''__''"
    using ToLower_underscores [of tab 2] by (simp add: numeral_2_eq_2)
  have "byte CHR ''_'' < 0x80" by (simp add: byte_def)
  from bytes_Map_before_ascii [OF this, of "unicode_ToLower tab" "take 253 name" "''_''"]
  obtain u where u: "bytes_ToLower tab (take 253 name @ ''__'') = u @ ''__''"
    using us by (auto simp: bytes_ToLower_def)
  have "length u = 253" if "\<forall>c\<in>set (take 253 name). byte c < 0x80"
  proof -
    have "bytes_ToLower tab (take 253 name @ ''__'')
            = bytes_Map (unicode_ToLower tab) (take 253 name) @ ''__''"
      using that us by (simp only: bytes_ToLower_def ToLower_ascii_append)
    with u have "u = bytes_Map (unicode_ToLower tab) (take 253 name)" by simp
    then show ?thesis
      using that assms by (simp add: ToLower_ascii_length)
  qed
  with n u show ?thesis by auto
qed

text \<open>
  Claim C1 says that every character of a name returned by \<^verbatim>\<open>normalizeDatabaseName\<close> is in
  \<^verbatim>\<open>[a-z0-9_]\<close>. The source does not do that: for the name \<^verbatim>\<open>a-b\<close> it returns \<^verbatim>\<open>a-b\<close>, and
  the hyphen is outside the class. The theorem evaluates the source at that input.
\<close>

theorem normalizeDatabaseName_keeps_hyphen:
  "normalizeDatabaseName caseTab ''a-b'' = Inr ''a-b'' \<and> \<not> allowedChar CHR ''-''"
  by (simp add: normalizeDatabaseName_def bytes_ToLower_def unicode_ToLower_def byte_def
      EncodeRune_def char_of_def allowedChar_def)

text \<open>
  What the source does guarantee about the result: it fails exactly on the empty name; a
  name of one or two ASCII bytes gives three bytes, the last of them the padding; a name
  longer than 255 bytes gives a result that ends with \<^verbatim>\<open>__\<close> and has 255 bytes when the
  first 253 bytes of the name are ASCII.
\<close>

lemma normalizeDatabaseName_lengths_ascii:
  "(isl (normalizeDatabaseName caseTab name) \<longleftrightarrow> name = [])
   \<and> (1 \<le> length name \<and> length name \<le> 2 \<and> (\<forall>c\<in>set name. byte c < 0x80) \<longrightarrow>
        (\<exists>r. normalizeDatabaseName caseTab name = Inr r \<and> length r = 3
             \<and> drop (length name) r = replicate (3 - length name) CHR ''_''))
   \<and> (255 < length name \<longrightarrow>
        (\<exists>r. normalizeDatabaseName caseTab name = Inr r \<and> drop (length r - 2) r = ''__''
             \<and> ((\<forall>c\<in>set (take 253 name). byte c < 0x80) \<longrightarrow> length r = 255)))"
proof (intro conjI impI)
  show "isl (normalizeDatabaseName caseTab name) \<longleftrightarrow> name = []"
    by (rule normalize_isl)
next
  assume a: "1 \<le> length name \<and> length name \<le> 2 \<and> (\<forall>c\<in>set name. byte c < 0x80)"
  then have "normalizeDatabaseName caseTab name =
           Inr (bytes_ToLower caseTab name @ replicate (3 - length name) CHR ''_'')"
    and "length (bytes_ToLower caseTab name) = length name"
    by (simp_all add: normalize_short)
  with a show "\<exists>r. normalizeDatabaseName caseTab name = Inr r \<and> length r = 3
             \<and> drop (length name) r = replicate (3 - length name) CHR ''_''"
    by simp
next
  assume "255 < length name"
  from normalize_long [OF this, of caseTab] obtain u where
    u: "normalizeDatabaseName caseTab name = Inr (u @ ''__'')"
       "(\<forall>c\<in>set (take 253 name). byte c < 0x80) \<longrightarrow> length u = 253"
    by blast
  then show "\<exists>r. normalizeDatabaseName caseTab name = Inr r \<and> drop (length r - 2) r = ''__''
             \<and> ((\<forall>c\<in>set (take 253 name). byte c < 0x80) \<longrightarrow> length r = 255)"
    by simp
qed

lemma ToLower_replicate_a:
  "bytes_Map (unicode_ToLower tab) (replicate n CHR ''a'') = replicate n CHR ''a''"
  by (induction n) (simp_all add: ToLower_ascii_step byte_def del: bytes_Map.simps(2))

text \<open>
  Claim C3 says that \<^verbatim>\<open>normalizeDatabaseName\<close> fails exactly on the empty name, returns
  exactly 3 bytes for a name of 1 or 2 bytes, and returns exactly 255 bytes ending with
  \<^verbatim>\<open>__\<close> for a name longer than 255 bytes. The source pads and truncates to these
  lengths (lines 119--124) and then lower-cases (line 125), and \<^verbatim>\<open>bytes.ToLower\<close>
  re-encodes every rune, so the lengths are lost on input that is not ASCII. The theorem
  evaluates the source at three such names. The one-byte name \<^verbatim>\<open>\xff\<close> gives five
  bytes: the invalid byte is written back as U+FFFD. The two-byte name U+0130 (bytes
  \<^verbatim>\<open>c4 b0\<close>), whose lower case in Go's table is \<open>i\<close>, gives the two bytes \<^verbatim>\<open>i_\<close>. A name of
  256 bytes whose 253rd byte is \<^verbatim>\<open>\xff\<close> gives 257 bytes. The case table is consulted
  at U+FFFD, where Go's table has no entry, and at U+0130 only.
\<close>

theorem normalizeDatabaseName_breaks_length_bounds:
  "length [CHR 0xFF] = 1
   \<and> normalizeDatabaseName Map.empty [CHR 0xFF]
       = Inr [CHR 0xEF, CHR 0xBF, CHR 0xBD, CHR ''_'', CHR ''_'']
   \<and> length [CHR 0xC4, CHR 0xB0] = 2
   \<and> normalizeDatabaseName [0x130 \<mapsto> 0x69] [CHR 0xC4, CHR 0xB0] = Inr ''i_''
   \<and> length (replicate 252 CHR ''a'' @ [CHR 0xFF, CHR ''a'', CHR ''a'', CHR ''a'']) = 256
   \<and> normalizeDatabaseName Map.empty
         (replicate 252 CHR ''a'' @ [CHR 0xFF, CHR ''a'', CHR ''a'', CHR ''a''])
       = Inr (replicate 252 CHR ''a'' @ [CHR 0xEF, CHR 0xBF, CHR 0xBD, CHR ''_'', CHR ''_''])
   \<and> length (replicate 252 CHR ''a'' @ [CHR 0xEF, CHR 0xBF, CHR 0xBD, CHR ''_'', CHR ''_'']) = 257"
proof -
  have one: "normalizeDatabaseName Map.empty [CHR 0xFF]
       = Inr [CHR 0xEF, CHR 0xBF, CHR 0xBD, CHR ''_'', CHR ''_'']"
    by (simp add: normalizeDatabaseName_def bytes_ToLower_def unicode_ToLower_def byte_def
        EncodeRune_def DecodeRune_def RuneError_def char_of_def)
  have two: "normalizeDatabaseName [0x130 \<mapsto> 0x69] [CHR 0xC4, CHR 0xB0] = Inr ''i_''"
    by (simp add: normalizeDatabaseName_def bytes_ToLower_def unicode_ToLower_def byte_def
        EncodeRune_def DecodeRune_def RuneError_def char_of_def)
  let ?name = "replicate 252 CHR ''a'' @ [CHR 0xFF, CHR ''a'', CHR ''a'', CHR ''a'']"
  have ne: "?name \<noteq> []" by simp
  have tk: "take 253 ?name = replicate 252 CHR ''a'' @ [CHR 0xFF]" by simp
  have asc: "\<forall>c\<in>set (replicate 252 CHR ''a''). byte c < 0x80" by (simp add: byte_def)
  have tail: "bytes_Map (unicode_ToLower Map.empty) [CHR 0xFF, CHR ''_'', CHR ''_'']
                = [CHR 0xEF, CHR 0xBF, CHR 0xBD, CHR ''_'', CHR ''_'']"
    by (simp add: unicode_ToLower_def byte_def EncodeRune_def DecodeRune_def RuneError_def
        char_of_def)
  have "normalizeDatabaseName Map.empty ?name
          = Inr (bytes_ToLower Map.empty ((replicate 252 CHR ''a'' @ [CHR 0xFF]) @ ''__''))"
    by (simp only: normalize_nonempty [OF ne] Let_def tk) simp
  also have "\<dots> = Inr (bytes_Map (unicode_ToLower Map.empty) (replicate 252 CHR ''a'')
                      @ bytes_Map (unicode_ToLower Map.empty) [CHR 0xFF, CHR ''_'', CHR ''_''])"
    using ToLower_ascii_append [OF asc, of Map.empty "[CHR 0xFF, CHR ''_'', CHR ''_'']"]
    by (simp add: bytes_ToLower_def del: bytes_Map.simps)
  also have "\<dots> = Inr (replicate 252 CHR ''a'' @ [CHR 0xEF, CHR 0xBF, CHR 0xBD, CHR ''_'', CHR ''_''])"
    by (simp only: ToLower_replicate_a tail)
  finally have three: "normalizeDatabaseName Map.empty ?name
       = Inr (replicate 252 CHR ''a'' @ [CHR 0xEF, CHR 0xBF, CHR 0xBD, CHR ''_'', CHR ''_''])" .
  from one two three show ?thesis by simp
qed

section \<open>Properties of destination resolution\<close>

lemma strings_Index_char_None:
  "c \<notin> set s \<Longrightarrow> strings_Index s [c] = None"
  by (induction s) auto

lemma strings_Index_char_Some:
  "c \<notin> set p \<Longrightarrow> strings_Index (p @ c # s) [c] = Some (length p)"
  by (induction p) auto

lemma strings_Index_char_split:
  "strings_Index s [c] = Some m \<Longrightarrow> m < length s \<and> s ! m = c \<and> c \<notin> set (take m s)"
proof (induction s arbitrary: m)
  case Nil
  then show ?case by simp
next
  case (Cons a s)
  show ?case
  proof (cases "a = c")
    case True
    with Cons.prems show ?thesis by simp
  next
    case False
    with Cons.prems obtain m' where m': "strings_Index s [c] = Some m'" "m = Suc m'"
      by auto
    from Cons.IH [OF m'(1)] False m'(2) show ?thesis by auto
  qed
qed

lemma SplitN_no_sep:
  "c \<notin> set s \<Longrightarrow> strings_SplitN s [c] 2 = [s]"
  by (cases s) (simp_all add: strings_SplitN_def strings_Index_char_None numeral_2_eq_2 del: strings_Index.simps)

lemma SplitN_sep:
  "c \<notin> set p \<Longrightarrow> strings_SplitN (p @ c # s) [c] 2 = [p, s]"
  by (simp add: strings_SplitN_def strings_Index_char_Some del: strings_Index.simps)

lemma SplitN_2_cases:
  "strings_SplitN s [c] 2 =
     (case strings_Index s [c] of None \<Rightarrow> [s] | Some m \<Rightarrow> [take m s, drop (Suc m) s])"
  by (cases s) (auto simp add: strings_SplitN_def split: option.splits)

lemma resolveNames_wild:
  "resolveNames ''*'' ''*'' tag =
     (case strings_Index tag ''.'' of
        None \<Rightarrow> (''*'', tag)
      | Some m \<Rightarrow> (take m tag, drop (Suc m) tag))"
  by (simp add: resolveNames_def SplitN_2_cases split: option.split)

text \<open>
  Claim C4: the pair \<^verbatim>\<open>(databaseName, tableName)\<close> before normalization. Both patterns
  fixed: the configured values. Database fixed, table \<^verbatim>\<open>*\<close>: the table is the tag.
  Database \<^verbatim>\<open>*\<close>, table fixed: the database is the tag. Both \<^verbatim>\<open>*\<close>: a tag without a dot
  leaves the database \<^verbatim>\<open>*\<close> and becomes the table; a tag with a dot is split at its first
  dot into database and table.
\<close>

theorem resolveNames_cases:
  "(db \<noteq> ''*'' \<and> tbl \<noteq> ''*'' \<longrightarrow> resolveNames db tbl tag = (db, tbl))
   \<and> (db \<noteq> ''*'' \<and> tbl = ''*'' \<longrightarrow> resolveNames db tbl tag = (db, tag))
   \<and> (db = ''*'' \<and> tbl \<noteq> ''*'' \<longrightarrow> resolveNames db tbl tag = (tag, tbl))
   \<and> (db = ''*'' \<and> tbl = ''*'' \<and> CHR ''.'' \<notin> set tag \<longrightarrow>
         resolveNames db tbl tag = (''*'', tag))
   \<and> (db = ''*'' \<and> tbl = ''*'' \<and> tag = prefix @ ''.'' @ suffix \<and> CHR ''.'' \<notin> set prefix \<longrightarrow>
         resolveNames db tbl tag = (prefix, suffix))"
proof (intro conjI impI)
  assume "db = ''*'' \<and> tbl = ''*'' \<and> CHR ''.'' \<notin> set tag"
  then show "resolveNames db tbl tag = (''*'', tag)"
    by (simp add: resolveNames_def SplitN_no_sep)
next
  assume "db = ''*'' \<and> tbl = ''*'' \<and> tag = prefix @ ''.'' @ suffix \<and> CHR ''.'' \<notin> set prefix"
  then show "resolveNames db tbl tag = (prefix, suffix)"
    using SplitN_sep [of "CHR ''.''" prefix suffix] by (simp add: resolveNames_def)
qed (simp_all add: resolveNames_def)

text \<open>The five cases at concrete patterns and tags.\<close>

theorem resolveNames_cases_witness:
  "resolveNames ''db'' ''tbl'' ''a.b'' = (''db'', ''tbl'')
   \<and> resolveNames ''db'' ''*'' ''a.b'' = (''db'', ''a.b'')
   \<and> resolveNames ''*'' ''tbl'' ''a.b'' = (''a.b'', ''tbl'')
   \<and> resolveNames ''*'' ''*'' ''ab'' = (''*'', ''ab'')
   \<and> resolveNames ''*'' ''*'' ''a.b.c'' = (''a'', ''b.c'')"
  using resolveNames_cases [of "''db''" "''tbl''" "''a.b''"]
    resolveNames_cases [of "''db''" "''*''" "''a.b''"]
    resolveNames_cases [of "''*''" "''tbl''" "''a.b''"]
    resolveNames_cases [of "''*''" "''*''" "''ab''"]
    resolveNames_cases [of "''*''" "''*''" "''a.b.c''" "''a''" "''b.c''"]
  by simp

lemma getSpooler_isl:
  "isl (fst (getSpooler caseTab d tag)) \<longleftrightarrow>
     fst (resolveNames (output_databaseName d) (output_tableName d) tag) = []
     \<or> snd (resolveNames (output_databaseName d) (output_tableName d) tag) = []"
proof -
  obtain db tbl where r: "resolveNames (output_databaseName d) (output_tableName d) tag = (db, tbl)"
    by (cases "resolveNames (output_databaseName d) (output_tableName d) tag")
  show ?thesis
    using normalize_isl [of caseTab db] normalize_isl [of caseTab tbl]
    by (auto simp add: getSpooler_def r normalizeTableName_def split: sum.splits prod.splits)
qed

lemma getSpooler_error:
  assumes "isl (fst (getSpooler caseTab d tag))"
  shows "getSpooler caseTab d tag = (Inl (Error ''Empty name is not allowed''), d)"
proof -
  obtain db tbl where r: "resolveNames (output_databaseName d) (output_tableName d) tag = (db, tbl)"
    by (cases "resolveNames (output_databaseName d) (output_tableName d) tag")
  show ?thesis
    using assms normalize_Inl [of caseTab db] normalize_Inl [of caseTab tbl]
    by (auto simp add: getSpooler_def r normalizeTableName_def split: sum.splits prod.splits)
qed

lemma wild_empty_component:
  "(fst (resolveNames ''*'' ''*'' tag) = [] \<or> snd (resolveNames ''*'' ''*'' tag) = []) \<longleftrightarrow>
     tag = [] \<or> strings_Index tag ''.'' = Some 0
     \<or> (tag \<noteq> [] \<and> strings_Index tag ''.'' = Some (length tag - 1))"
proof (cases "strings_Index tag ''.''")
  case None
  then show ?thesis by (simp add: resolveNames_wild)
next
  case (Some m)
  from strings_Index_char_split [OF this] have "m < length tag" by simp
  with Some show ?thesis by (auto simp add: resolveNames_wild)
qed

text \<open>
  Claim C10: \<^verbatim>\<open>getSpooler\<close> returns an error exactly when the database or the table name
  it resolved is empty. With both patterns \<^verbatim>\<open>*\<close> that is the case exactly for the empty
  tag and for a tag whose first dot is its first or its last byte. On such an error the
  emitter only logs it: the daemon and the journals stay as they were, and the loop goes
  on with the next record set.
\<close>

theorem getSpooler_fails_iff_empty_component:
  "(isl (fst (getSpooler caseTab (daemon st) (Tag recordSet))) \<longleftrightarrow>
      fst (resolveNames (output_databaseName (daemon st)) (output_tableName (daemon st))
             (Tag recordSet)) = []
      \<or> snd (resolveNames (output_databaseName (daemon st)) (output_tableName (daemon st))
             (Tag recordSet)) = [])
   \<and> (output_databaseName (daemon st) = ''*'' \<and> output_tableName (daemon st) = ''*'' \<longrightarrow>
        (isl (fst (getSpooler caseTab (daemon st) (Tag recordSet))) \<longleftrightarrow>
           Tag recordSet = [] \<or> strings_Index (Tag recordSet) ''.'' = Some 0
           \<or> (Tag recordSet \<noteq> []
               \<and> strings_Index (Tag recordSet) ''.'' = Some (length (Tag recordSet) - 1))))
   \<and> (isl (fst (getSpooler caseTab (daemon st) (Tag recordSet))) \<longrightarrow>
        processRecordSet caseTab rejects writeFails st recordSet =
          st\<lparr>errorLog := errorLog st @ [Error ''Empty name is not allowed'']\<rparr>
        \<and> emitterLoop caseTab rejects writeFails st (recordSet # rest) =
            emitterLoop caseTab rejects writeFails
              (st\<lparr>errorLog := errorLog st @ [Error ''Empty name is not allowed'']\<rparr>) rest)"
proof (intro conjI impI)
  show "isl (fst (getSpooler caseTab (daemon st) (Tag recordSet))) \<longleftrightarrow>
      fst (resolveNames (output_databaseName (daemon st)) (output_tableName (daemon st))
             (Tag recordSet)) = []
      \<or> snd (resolveNames (output_databaseName (daemon st)) (output_tableName (daemon st))
             (Tag recordSet)) = []"
    by (rule getSpooler_isl)
next
  assume "output_databaseName (daemon st) = ''*'' \<and> output_tableName (daemon st) = ''*''"
  then show "isl (fst (getSpooler caseTab (daemon st) (Tag recordSet))) \<longleftrightarrow>
           Tag recordSet = [] \<or> strings_Index (Tag recordSet) ''.'' = Some 0
           \<or> (Tag recordSet \<noteq> []
               \<and> strings_Index (Tag recordSet) ''.'' = Some (length (Tag recordSet) - 1))"
    using wild_empty_component [of "Tag recordSet"] by (simp add: getSpooler_isl)
next
  assume e: "isl (fst (getSpooler caseTab (daemon st) (Tag recordSet)))"
  show p: "processRecordSet caseTab rejects writeFails st recordSet =
          st\<lparr>errorLog := errorLog st @ [Error ''Empty name is not allowed'']\<rparr>"
    by (simp add: processRecordSet_def getSpooler_error [OF e])
  show "emitterLoop caseTab rejects writeFails st (recordSet # rest) =
            emitterLoop caseTab rejects writeFails
              (st\<lparr>errorLog := errorLog st @ [Error ''Empty name is not allowed'']\<rparr>) rest"
    by (simp add: p)
qed

text \<open>The theorem at the tag \<^verbatim>\<open>a.\<close> with both patterns \<^verbatim>\<open>*\<close>.\<close>

theorem getSpooler_fails_iff_empty_component_witness:
  "isl (fst (getSpooler Map.empty (newTDOutputSpoolerDaemon ''*'' ''*'') ''a.''))
   \<and> processRecordSet Map.empty Map.empty (\<lambda>r b. None)
        \<lparr>daemon = newTDOutputSpoolerDaemon ''*'' ''*'', journalWrites = [], errorLog = []\<rparr>
        \<lparr>Tag = ''a.'', Records = [\<lparr>Timestamp = 1 :: nat, Data = [''k'' \<mapsto> Of_Value True]\<rparr>]\<rparr>
      = \<lparr>daemon = newTDOutputSpoolerDaemon ''*'' ''*'', journalWrites = [],
         errorLog = [Error ''Empty name is not allowed'']\<rparr>"
proof -
  let ?d = "newTDOutputSpoolerDaemon ''*'' ''*''"
  let ?st = "\<lparr>daemon = ?d, journalWrites = [], errorLog = []\<rparr> :: (nat, bool) emitter"
  let ?rs = "\<lparr>Tag = ''a.'',
               Records = [\<lparr>Timestamp = 1 :: nat, Data = [''k'' \<mapsto> Of_Value True]\<rparr>]\<rparr>"
  note t = getSpooler_fails_iff_empty_component
             [of Map.empty ?st ?rs Map.empty "\<lambda>r b. None" "[]"]
  have w: "output_databaseName ?d = ''*'' \<and> output_tableName ?d = ''*''"
    by (simp add: newTDOutputSpoolerDaemon_def)
  have i: "strings_Index ''a.'' ''.'' = Some (length ''a.'' - 1)"
    by simp
  have f: "isl (fst (getSpooler Map.empty ?d ''a.''))"
    using t [THEN conjunct2, THEN conjunct1] w i by simp
  with t [THEN conjunct2, THEN conjunct2] show ?thesis by simp
qed

text \<open>
  Claim C2, as amended: on a fresh daemon with database \<^verbatim>\<open>db\<close> and table \<^verbatim>\<open>*\<close>, the tag
  \<^verbatim>\<open>x\<close> is registered under the key \<^verbatim>\<open>db_.x__\<close>; with both patterns \<^verbatim>\<open>*\<close>, the tag
  \<^verbatim>\<open>a.b\<close> is registered under \<^verbatim>\<open>a__.b__\<close>. Each name shorter than three bytes is padded
  with underscores before the key is built.
\<close>

theorem getSpooler_registry_keys:
  "fst (getSpooler caseTab (newTDOutputSpoolerDaemon ''db'' ''*'') ''x'') = Inr 0
   \<and> map key (objects (snd (getSpooler caseTab (newTDOutputSpoolerDaemon ''db'' ''*'') ''x'')))
       = [''db_.x__'']
   \<and> spoolers (snd (getSpooler caseTab (newTDOutputSpoolerDaemon ''db'' ''*'') ''x''))
       = [''db_.x__'' \<mapsto> 0]
   \<and> fst (getSpooler caseTab (newTDOutputSpoolerDaemon ''*'' ''*'') ''a.b'') = Inr 0
   \<and> map key (objects (snd (getSpooler caseTab (newTDOutputSpoolerDaemon ''*'' ''*'') ''a.b'')))
       = [''a__.b__'']
   \<and> spoolers (snd (getSpooler caseTab (newTDOutputSpoolerDaemon ''*'' ''*'') ''a.b''))
       = [''a__.b__'' \<mapsto> 0]"
proof -
  have n: "normalizeDatabaseName caseTab ''db'' = Inr ''db_''"
    "normalizeDatabaseName caseTab ''x'' = Inr ''x__''"
    "normalizeDatabaseName caseTab ''a'' = Inr ''a__''"
    "normalizeDatabaseName caseTab ''b'' = Inr ''b__''"
    by (simp_all add: normalizeDatabaseName_def bytes_ToLower_def unicode_ToLower_def byte_def
        EncodeRune_def char_of_def)
  have r: "resolveNames ''db'' ''*'' ''x'' = (''db'', ''x'')"
    "resolveNames ''*'' ''*'' ''a.b'' = (''a'', ''b'')"
    by (simp_all add: resolveNames_def strings_SplitN_def)
  show ?thesis
    by (simp add: getSpooler_def newTDOutputSpoolerDaemon_def r n normalizeTableName_def
        spawnSpooler_def newTDOutputSpooler_def Let_def)
qed

text \<open>
  Claim C2 as stated fails: after routing the tag \<^verbatim>\<open>x\<close> the registry has no entry
  \<^verbatim>\<open>db.x\<close>, and after routing \<^verbatim>\<open>a.b\<close> it has no entry \<^verbatim>\<open>a.b\<close>; the entries are the
  padded keys.
\<close>

theorem getSpooler_registry_keys_counterexample:
  "spoolers (snd (getSpooler Map.empty (newTDOutputSpoolerDaemon ''db'' ''*'') ''x'')) ''db.x'' = None
   \<and> spoolers (snd (getSpooler Map.empty (newTDOutputSpoolerDaemon ''*'' ''*'') ''a.b'')) ''a.b'' = None
   \<and> spoolers (snd (getSpooler Map.empty (newTDOutputSpoolerDaemon ''db'' ''*'') ''x'')) ''db_.x__''
       = Some 0
   \<and> spoolers (snd (getSpooler Map.empty (newTDOutputSpoolerDaemon ''*'' ''*'') ''a.b'')) ''a__.b__''
       = Some 0"
proof -
  have n: "normalizeDatabaseName Map.empty ''db'' = Inr ''db_''"
    "normalizeDatabaseName Map.empty ''x'' = Inr ''x__''"
    "normalizeDatabaseName Map.empty ''a'' = Inr ''a__''"
    "normalizeDatabaseName Map.empty ''b'' = Inr ''b__''"
    by (simp_all add: normalizeDatabaseName_def bytes_ToLower_def unicode_ToLower_def byte_def
        EncodeRune_def char_of_def)
  have r: "resolveNames ''db'' ''*'' ''x'' = (''db'', ''x'')"
    "resolveNames ''*'' ''*'' ''a.b'' = (''a'', ''b'')"
    by (simp_all add: resolveNames_def strings_SplitN_def)
  show ?thesis
    by (simp add: getSpooler_def newTDOutputSpoolerDaemon_def r n normalizeTableName_def
        spawnSpooler_def newTDOutputSpooler_def Let_def)
qed

section \<open>Properties of the spooler registry\<close>

lemma registry_inv_new: "registry_inv (newTDOutputSpoolerDaemon db tbl)"
  by (simp add: registry_inv_def newTDOutputSpoolerDaemon_def)

lemma registry_invD1:
  "registry_inv d \<Longrightarrow> spoolers d k = Some r \<Longrightarrow> r < length (objects d) \<and> key (objects d ! r) = k"
  unfolding registry_inv_def by blast

lemma registry_invD2:
  "registry_inv d \<Longrightarrow> r < length (objects d) \<Longrightarrow> spoolers d (key (objects d ! r)) = Some r"
  unfolding registry_inv_def by blast

lemma registry_invD3:
  "registry_inv d \<Longrightarrow> wg d = length (objects d) \<and> started d = [0..<length (objects d)]"
  unfolding registry_inv_def by blast

lemma spawnSpooler_present:
  "spoolers d k = Some r \<Longrightarrow> spawnSpooler d db tbl k = (r, d)"
  by (simp add: spawnSpooler_def)

lemma spawnSpooler_keeps:
  "spoolers d k = Some r \<Longrightarrow> spoolers (snd (spawnSpooler d db tbl k')) k = Some r"
  by (cases "k' = k")
     (auto simp add: spawnSpooler_def newTDOutputSpooler_def Let_def split: option.splits)

lemma spawnSpooler_registered:
  "spoolers (snd (spawnSpooler d db tbl k)) k = Some (fst (spawnSpooler d db tbl k))"
  by (simp add: spawnSpooler_def newTDOutputSpooler_def Let_def split: option.splits)

lemma spawnSpooler_dom:
  "dom (spoolers (snd (spawnSpooler d db tbl k))) = insert k (dom (spoolers d))"
  by (auto simp add: spawnSpooler_def newTDOutputSpooler_def Let_def split: option.splits)

text \<open>Every call of \<^verbatim>\<open>spawnSpooler\<close> keeps the registry consistent.\<close>

lemma spawnSpooler_inv:
  assumes "registry_inv d"
  shows "registry_inv (snd (spawnSpooler d db tbl k))"
proof (cases "spoolers d k")
  case (Some r)
  with assms show ?thesis by (simp add: spawnSpooler_def)
next
  case None
  let ?n = "length (objects d)"
  have bk: "spoolers d (key (objects d ! r)) = Some r" if "r < ?n" for r
    using assms that by (rule registry_invD2)
  have fresh: "key (objects d ! r) \<noteq> k" if "r < ?n" for r
  proof
    assume "key (objects d ! r) = k"
    with bk [OF that] have "spoolers d k = Some r" by simp
    with None show False by simp
  qed
  have old: "r < ?n \<and> key (objects d ! r) = k'" if "spoolers d k' = Some r" for k' r
    using assms that by (rule registry_invD1)
  have wgs: "wg d = ?n" "started d = [0..<?n]"
    using registry_invD3 [OF assms] by simp_all
  show ?thesis
    unfolding registry_inv_def
  proof (intro conjI allI impI)
    fix k' r
    assume a: "spoolers (snd (spawnSpooler d db tbl k)) k' = Some r"
    have objs: "objects (snd (spawnSpooler d db tbl k))
                  = objects d @ [newTDOutputSpooler db tbl k]"
      using None by (simp add: spawnSpooler_def Let_def)
    from a have c: "(k' = k \<and> r = ?n) \<or> (k' \<noteq> k \<and> spoolers d k' = Some r)"
      using None by (auto simp add: spawnSpooler_def newTDOutputSpooler_def Let_def split: if_splits)
    show "r < length (objects (snd (spawnSpooler d db tbl k)))"
    proof (cases "k' = k")
      case True
      with c show ?thesis by (simp add: objs)
    next
      case False
      with c old [of k' r] show ?thesis by (simp add: objs)
    qed
    show "key (objects (snd (spawnSpooler d db tbl k)) ! r) = k'"
    proof (cases "k' = k")
      case True
      with c show ?thesis by (simp add: objs newTDOutputSpooler_def)
    next
      case False
      with c old [of k' r] show ?thesis by (simp add: objs nth_append)
    qed
  next
    fix r
    assume a: "r < length (objects (snd (spawnSpooler d db tbl k)))"
    have objs: "objects (snd (spawnSpooler d db tbl k))
                  = objects d @ [newTDOutputSpooler db tbl k]"
      using None by (simp add: spawnSpooler_def Let_def)
    have sp: "spoolers (snd (spawnSpooler d db tbl k)) = (spoolers d)(k \<mapsto> ?n)"
      using None by (simp add: spawnSpooler_def newTDOutputSpooler_def Let_def)
    show "spoolers (snd (spawnSpooler d db tbl k))
                 (key (objects (snd (spawnSpooler d db tbl k)) ! r)) = Some r"
    proof (cases "r < ?n")
      case True
      with fresh [of r] bk [of r] show ?thesis by (simp add: objs sp nth_append)
    next
      case False
      with a have "r = ?n" by (simp add: objs)
      then show ?thesis by (simp add: objs sp newTDOutputSpooler_def)
    qed
  next
    show "wg (snd (spawnSpooler d db tbl k)) = length (objects (snd (spawnSpooler d db tbl k)))"
      using None wgs by (simp add: spawnSpooler_def newTDOutputSpooler_def Let_def)
    show "started (snd (spawnSpooler d db tbl k))
            = [0..<length (objects (snd (spawnSpooler d db tbl k)))]"
      using None wgs by (simp add: spawnSpooler_def newTDOutputSpooler_def Let_def)
  qed
qed

lemma registry_inv_distinct:
  assumes "registry_inv d"
  shows "distinct (map key (objects d))"
proof -
  have eq: "i = j" if "i < length (objects d)" "j < length (objects d)"
    "key (objects d ! i) = key (objects d ! j)" for i j
  proof -
    from assms that(1) have a: "spoolers d (key (objects d ! i)) = Some i"
      by (rule registry_invD2)
    from assms that(2) have b: "spoolers d (key (objects d ! j)) = Some j"
      by (rule registry_invD2)
    have "Some i = spoolers d (key (objects d ! i))" by (rule a [symmetric])
    also have "\<dots> = spoolers d (key (objects d ! j))" by (simp only: that(3))
    also have "\<dots> = Some j" by (rule b)
    finally show ?thesis by simp
  qed
  show ?thesis
    unfolding distinct_conv_nth
  proof (intro allI impI)
    fix i j
    assume "i < length (map key (objects d))" "j < length (map key (objects d))" "i \<noteq> j"
    then show "map key (objects d) ! i \<noteq> map key (objects d) ! j"
      using eq [of i j] by auto
  qed
qed

lemma registry_inv_keys:
  assumes "registry_inv d"
  shows "set (map key (objects d)) = dom (spoolers d)"
proof (intro set_eqI iffI)
  fix k assume "k \<in> set (map key (objects d))"
  then obtain r where r: "r < length (objects d)" "key (objects d ! r) = k"
    by (auto simp add: in_set_conv_nth)
  from registry_invD2 [OF assms r(1)] r(2) show "k \<in> dom (spoolers d)"
    by auto
next
  fix k assume "k \<in> dom (spoolers d)"
  then obtain r where "spoolers d k = Some r" by auto
  with registry_invD1 [OF assms] have r: "r < length (objects d)" "key (objects d ! r) = k"
    by simp_all
  from r(1) have "objects d ! r \<in> set (objects d)" by (rule nth_mem)
  with r(2) show "k \<in> set (map key (objects d))"
    by auto
qed

lemma count_distinct_key:
  "distinct (map f xs) \<Longrightarrow>
   length (filter (\<lambda>x. f x = k) xs) = (if k \<in> set (map f xs) then 1 else 0)"
  by (induction xs) auto

lemma spawnSpoolers_run:
  assumes "spawnSpoolers d reqs = (refs, d')" "registry_inv d"
  shows "registry_inv d'
    \<and> length refs = length reqs
    \<and> (\<forall>i < length reqs. spoolers d' (snd (snd (reqs ! i))) = Some (refs ! i))
    \<and> dom (spoolers d') = dom (spoolers d) \<union> (\<lambda>q. snd (snd q)) ` set reqs
    \<and> (\<forall>k r. spoolers d k = Some r \<longrightarrow> spoolers d' k = Some r)"
  using assms
proof (induction reqs arbitrary: d refs d')
  case Nil
  then show ?case by simp
next
  case (Cons q reqs)
  obtain db tbl k where q: "q = (db, tbl, k)" by (cases q)
  obtain r d1 where s1: "spawnSpooler d db tbl k = (r, d1)" by (cases "spawnSpooler d db tbl k")
  obtain rs d2 where s2: "spawnSpoolers d1 reqs = (rs, d2)" by (cases "spawnSpoolers d1 reqs")
  from Cons.prems(1) q s1 s2 have res: "refs = r # rs" "d' = d2" by simp_all
  have inv1: "registry_inv d1"
    using spawnSpooler_inv [OF Cons.prems(2), of db tbl k] s1 by simp
  have reg1: "spoolers d1 k = Some r"
    using spawnSpooler_registered [of d db tbl k] s1 by simp
  have dom1: "dom (spoolers d1) = insert k (dom (spoolers d))"
    using spawnSpooler_dom [of d db tbl k] s1 by simp
  have keep1: "spoolers d1 k' = Some r'" if "spoolers d k' = Some r'" for k' r'
    using spawnSpooler_keeps [OF that, of db tbl k] s1 by simp
  note IH = Cons.IH [OF s2 inv1]
  from IH have keep2: "spoolers d2 k' = Some r'" if "spoolers d1 k' = Some r'" for k' r'
    using that by blast
  have "spoolers d2 (snd (snd ((q # reqs) ! i))) = Some ((r # rs) ! i)"
    if "i < length (q # reqs)" for i
  proof (cases i)
    case 0
    then show ?thesis using keep2 [OF reg1] q by simp
  next
    case (Suc j)
    with that IH show ?thesis by simp
  qed
  moreover have "dom (spoolers d2) = dom (spoolers d) \<union> (\<lambda>q. snd (snd q)) ` set (q # reqs)"
    using IH dom1 q by auto
  moreover have "\<forall>k r. spoolers d k = Some r \<longrightarrow> spoolers d2 k = Some r"
    using keep1 keep2 by blast
  ultimately show ?case
    using IH res by simp
qed

text \<open>
  Claim C9: \<^verbatim>\<open>spawnSpooler\<close> is idempotent per key. Whatever requests a fresh daemon
  serves, in whatever order: two requests with the same key get the same reference, the
  reference points to a spooler carrying that key, the daemon has allocated exactly one
  spooler for each requested key and none for any other, and each allocated spooler was
  counted and started once. In any daemon, a key that is present is answered with its
  entry and an unchanged daemon, and a request for any key leaves the entry in place.
\<close>

theorem spawnSpooler_idempotent_per_key:
  assumes "spawnSpoolers (newTDOutputSpoolerDaemon cdb ctbl) reqs = (refs, d')"
  shows "length refs = length reqs
    \<and> (\<forall>i<length reqs. \<forall>j<length reqs.
          snd (snd (reqs ! i)) = snd (snd (reqs ! j)) \<longrightarrow> refs ! i = refs ! j)
    \<and> (\<forall>i<length reqs. refs ! i < length (objects d')
          \<and> key (objects d' ! (refs ! i)) = snd (snd (reqs ! i)))
    \<and> (\<forall>k. length (filter (\<lambda>s. key s = k) (objects d'))
          = (if k \<in> (\<lambda>q. snd (snd q)) ` set reqs then 1 else 0))
    \<and> wg d' = length (objects d') \<and> started d' = [0..<length (objects d')]
    \<and> (\<forall>d k r db tbl k'. spoolers d k = Some r \<longrightarrow>
          spawnSpooler d db tbl k = (r, d)
          \<and> spoolers (snd (spawnSpooler d db tbl k')) k = Some r)"
proof -
  note run = spawnSpoolers_run [OF assms registry_inv_new]
  from run have inv: "registry_inv d'" by blast
  from run have len: "length refs = length reqs" by blast
  from run have reg: "spoolers d' (snd (snd (reqs ! i))) = Some (refs ! i)"
    if "i < length reqs" for i
    using that by blast
  from run have dm: "dom (spoolers d') = (\<lambda>q. snd (snd q)) ` set reqs"
    by (simp add: newTDOutputSpoolerDaemon_def)
  have same: "refs ! i = refs ! j"
    if "i < length reqs" "j < length reqs" "snd (snd (reqs ! i)) = snd (snd (reqs ! j))" for i j
  proof -
    have "Some (refs ! i) = spoolers d' (snd (snd (reqs ! i)))"
      using reg [OF that(1)] by simp
    also have "\<dots> = spoolers d' (snd (snd (reqs ! j)))" by (simp only: that(3))
    also have "\<dots> = Some (refs ! j)" by (rule reg [OF that(2)])
    finally show ?thesis by simp
  qed
  have obj: "refs ! i < length (objects d') \<and> key (objects d' ! (refs ! i)) = snd (snd (reqs ! i))"
    if "i < length reqs" for i
    using registry_invD1 [OF inv reg [OF that]] .
  have cnt: "length (filter (\<lambda>s. key s = k) (objects d'))
          = (if k \<in> (\<lambda>q. snd (snd q)) ` set reqs then 1 else 0)" for k
    using count_distinct_key [OF registry_inv_distinct [OF inv], of k]
    by (simp only: registry_inv_keys [OF inv] dm)
  have keep: "spawnSpooler d db tbl k = (r, d)
          \<and> spoolers (snd (spawnSpooler d db tbl k')) k = Some r"
    if "spoolers d k = Some r" for d k r db tbl k'
    using spawnSpooler_present [OF that] spawnSpooler_keeps [OF that] by simp
  from len same obj cnt registry_invD3 [OF inv] keep show ?thesis
    by blast
qed

text \<open>The theorem at three requests, two of them for the same key.\<close>

theorem spawnSpooler_idempotent_per_key_witness:
  "fst (spawnSpoolers (newTDOutputSpoolerDaemon ''*'' ''*'')
          [(''a__'', ''b__'', ''a__.b__''), (''a__'', ''b__'', ''a__.b__''),
           (''c__'', ''d__'', ''c__.d__'')]) ! 0
     = fst (spawnSpoolers (newTDOutputSpoolerDaemon ''*'' ''*'')
          [(''a__'', ''b__'', ''a__.b__''), (''a__'', ''b__'', ''a__.b__''),
           (''c__'', ''d__'', ''c__.d__'')]) ! 1
   \<and> length (filter (\<lambda>s. key s = ''a__.b__'')
        (objects (snd (spawnSpoolers (newTDOutputSpoolerDaemon ''*'' ''*'')
          [(''a__'', ''b__'', ''a__.b__''), (''a__'', ''b__'', ''a__.b__''),
           (''c__'', ''d__'', ''c__.d__'')])))) = 1"
proof -
  let ?reqs = "[(''a__'', ''b__'', ''a__.b__''), (''a__'', ''b__'', ''a__.b__''),
           (''c__'', ''d__'', ''c__.d__'')]"
  let ?X = "spawnSpoolers (newTDOutputSpoolerDaemon ''*'' ''*'') ?reqs"
  have h: "?X = (fst ?X, snd ?X)" by simp
  note t = spawnSpooler_idempotent_per_key [OF h]
  from t have "\<forall>i<length ?reqs. \<forall>j<length ?reqs.
          snd (snd (?reqs ! i)) = snd (snd (?reqs ! j)) \<longrightarrow> fst ?X ! i = fst ?X ! j"
    by blast
  from this [rule_format, of 0 1] have a: "fst ?X ! 0 = fst ?X ! 1" by simp
  from t have "\<forall>k. length (filter (\<lambda>s. key s = k) (objects (snd ?X)))
          = (if k \<in> (\<lambda>q. snd (snd q)) ` set ?reqs then 1 else 0)"
    by blast
  from this [rule_format, of "''a__.b__''"]
  have b: "length (filter (\<lambda>s. key s = ''a__.b__'') (objects (snd ?X))) = 1" by simp
  from a b show ?thesis by (rule conjI)
qed

section \<open>Properties of record encoding\<close>

lemma encodeRecords_stop:
  "encodeRecords rejects buffer records = (err, buffer') \<Longrightarrow>
   \<exists>n \<le> length records.
     buffer' = buffer @ map recordEntry (take n records)
     \<and> (\<forall>i < n. rejects (recordEntry (records ! i)) = None)
     \<and> (err = None \<longrightarrow> n = length records)
     \<and> (\<forall>e. err = Some e \<longrightarrow> n < length records \<and> rejects (recordEntry (records ! n)) = Some e)"
proof (induction records arbitrary: buffer)
  case Nil
  then show ?case by simp
next
  case (Cons r records)
  show ?case
  proof (cases "rejects (recordEntry r)")
    case (Some e)
    with Cons.prems have "err = Some e" "buffer' = buffer"
      by (simp_all add: Encode_def)
    with Some show ?thesis
      by (intro exI [of _ 0]) simp
  next
    case None
    with Cons.prems have "encodeRecords rejects (buffer @ [recordEntry r]) records = (err, buffer')"
      by (simp add: Encode_def)
    from Cons.IH [OF this] obtain n where n: "n \<le> length records"
      "buffer' = (buffer @ [recordEntry r]) @ map recordEntry (take n records)"
      "\<forall>i < n. rejects (recordEntry (records ! i)) = None"
      "err = None \<longrightarrow> n = length records"
      "\<forall>e. err = Some e \<longrightarrow> n < length records \<and> rejects (recordEntry (records ! n)) = Some e"
      by blast
    have acc: "rejects (recordEntry ((r # records) ! i)) = None" if "i < Suc n" for i
    proof (cases i)
      case 0
      with None show ?thesis by simp
    next
      case (Suc j)
      with that n(3) show ?thesis by simp
    qed
    from n(1,2,4,5) acc show ?thesis
      by (intro exI [of _ "Suc n"]) simp
  qed
qed

lemma recordEntry_props:
  "(\<forall>k v. Data r k = Some v \<longrightarrow> recordEntry r k = Some v)
   \<and> (Data r ''time'' = None \<longrightarrow> recordEntry r ''time'' = Some (Of_Timestamp (Timestamp r)))
   \<and> dom (recordEntry r) = insert ''time'' (dom (Data r))"
  by (auto simp add: recordEntry_def map_add_def split: option.splits)

text \<open>
  Claim C5, as amended: \<^verbatim>\<open>encodeRecords\<close> hands the records to the encoder in list order
  and stops at the first record the encoder rejects, returning that record's error:
  every record before the stop was accepted and written, the record at the stop is the
  one rejected, and nothing after it is written. It returns \<^verbatim>\<open>nil\<close> exactly when the
  encoder accepts every record, and then all of them are written. The map written for a
  record is the one built at lines 62--65: it contains every key/value pair of the
  record's \<open>Data\<close>, has no key besides those and \<^verbatim>\<open>time\<close>, and maps \<^verbatim>\<open>time\<close> to the
  record's timestamp when \<open>Data\<close> has no key \<^verbatim>\<open>time\<close> of its own.
\<close>

theorem encodeRecords_entries:
  assumes "encodeRecords rejects buffer records = (err, buffer')"
  shows "take (length buffer) buffer' = buffer
     \<and> length buffer \<le> length buffer' \<and> length buffer' - length buffer \<le> length records
     \<and> (\<forall>i < length buffer' - length buffer.
           rejects (recordEntry (records ! i)) = None
           \<and> buffer' ! (length buffer + i) = recordEntry (records ! i)
           \<and> (\<forall>k v. Data (records ! i) k = Some v \<longrightarrow> (buffer' ! (length buffer + i)) k = Some v)
           \<and> (Data (records ! i) ''time'' = None \<longrightarrow>
                (buffer' ! (length buffer + i)) ''time''
                  = Some (Of_Timestamp (Timestamp (records ! i))))
           \<and> dom (buffer' ! (length buffer + i)) = insert ''time'' (dom (Data (records ! i))))
     \<and> (err = None \<longrightarrow> length buffer' - length buffer = length records)
     \<and> (\<forall>e. err = Some e \<longrightarrow> length buffer' - length buffer < length records
           \<and> rejects (recordEntry (records ! (length buffer' - length buffer))) = Some e)
     \<and> (err = None \<longleftrightarrow> (\<forall>i < length records. rejects (recordEntry (records ! i)) = None))"
proof -
  from encodeRecords_stop [OF assms] obtain n where n: "n \<le> length records"
    "buffer' = buffer @ map recordEntry (take n records)"
    "\<forall>i < n. rejects (recordEntry (records ! i)) = None"
    "err = None \<longrightarrow> n = length records"
    "\<forall>e. err = Some e \<longrightarrow> n < length records \<and> rejects (recordEntry (records ! n)) = Some e"
    by blast
  have len: "length buffer' - length buffer = n"
    using n(1) by (simp add: n(2))
  have nth: "buffer' ! (length buffer + i) = recordEntry (records ! i)" if "i < n" for i
    using that n(1) by (simp add: n(2) nth_append)
  have ent: "rejects (recordEntry (records ! i)) = None
           \<and> buffer' ! (length buffer + i) = recordEntry (records ! i)
           \<and> (\<forall>k v. Data (records ! i) k = Some v \<longrightarrow> (buffer' ! (length buffer + i)) k = Some v)
           \<and> (Data (records ! i) ''time'' = None \<longrightarrow>
                (buffer' ! (length buffer + i)) ''time''
                  = Some (Of_Timestamp (Timestamp (records ! i))))
           \<and> dom (buffer' ! (length buffer + i)) = insert ''time'' (dom (Data (records ! i)))"
    if "i < n" for i
  proof (intro conjI)
    from n(3) [rule_format, OF that] show "rejects (recordEntry (records ! i)) = None" .
    show "buffer' ! (length buffer + i) = recordEntry (records ! i)" by (rule nth [OF that])
    note p = recordEntry_props [of "records ! i", folded nth [OF that]]
    from p show "\<forall>k v. Data (records ! i) k = Some v \<longrightarrow> (buffer' ! (length buffer + i)) k = Some v"
      by (rule conjunct1)
    from p show "Data (records ! i) ''time'' = None \<longrightarrow>
                (buffer' ! (length buffer + i)) ''time''
                  = Some (Of_Timestamp (Timestamp (records ! i)))"
      by (elim conjE)
    from p show "dom (buffer' ! (length buffer + i)) = insert ''time'' (dom (Data (records ! i)))"
      by (elim conjE)
  qed
  have noerr: "err = None \<longleftrightarrow> (\<forall>i < length records. rejects (recordEntry (records ! i)) = None)"
  proof
    assume "err = None"
    with n(4) have "n = length records" by simp
    with n(3) show "\<forall>i < length records. rejects (recordEntry (records ! i)) = None" by simp
  next
    assume a: "\<forall>i < length records. rejects (recordEntry (records ! i)) = None"
    show "err = None"
    proof (cases err)
      case None
      then show ?thesis .
    next
      case (Some e)
      with n(5) have "n < length records" "rejects (recordEntry (records ! n)) = Some e" by simp_all
      with a show ?thesis by simp
    qed
  qed
  have pre: "take (length buffer) buffer' = buffer" "length buffer \<le> length buffer'"
    by (simp_all add: n(2))
  show ?thesis
    unfolding len
  proof (intro conjI)
    show "take (length buffer) buffer' = buffer" by (rule pre(1))
    show "length buffer \<le> length buffer'" by (rule pre(2))
    show "n \<le> length records" by (rule n(1))
    show "\<forall>i<n. rejects (recordEntry (records ! i)) = None
           \<and> buffer' ! (length buffer + i) = recordEntry (records ! i)
           \<and> (\<forall>k v. Data (records ! i) k = Some v \<longrightarrow> (buffer' ! (length buffer + i)) k = Some v)
           \<and> (Data (records ! i) ''time'' = None \<longrightarrow>
                (buffer' ! (length buffer + i)) ''time''
                  = Some (Of_Timestamp (Timestamp (records ! i))))
           \<and> dom (buffer' ! (length buffer + i)) = insert ''time'' (dom (Data (records ! i)))"
      by (intro allI impI) (rule ent)
    show "err = None \<longrightarrow> n = length records" by (rule n(4))
    show "\<forall>e. err = Some e \<longrightarrow> n < length records \<and> rejects (recordEntry (records ! n)) = Some e"
      by (rule n(5))
    show "err = None \<longleftrightarrow> (\<forall>i < length records. rejects (recordEntry (records ! i)) = None)"
      by (rule noerr)
  qed
qed

text \<open>
  The theorem at one record with the field \<^verbatim>\<open>msg\<close> and an encoder that accepts it, and
  at three records with an encoder that rejects the second.
\<close>

theorem encodeRecords_entries_witness:
  "fst (encodeRecords Map.empty []
          [\<lparr>Timestamp = 5 :: nat, Data = [''msg'' \<mapsto> Of_Value True]\<rparr>]) = None
   \<and> (snd (encodeRecords Map.empty []
          [\<lparr>Timestamp = 5 :: nat, Data = [''msg'' \<mapsto> Of_Value True]\<rparr>]) ! 0) ''time''
       = Some (Of_Timestamp 5)
   \<and> (snd (encodeRecords Map.empty []
          [\<lparr>Timestamp = 5 :: nat, Data = [''msg'' \<mapsto> Of_Value True]\<rparr>]) ! 0) ''msg''
       = Some (Of_Value True)
   \<and> fst (encodeRecords
          (\<lambda>e. if e ''bad'' = None then None else Some (Error ''unsupported value'')) []
          [\<lparr>Timestamp = 5 :: nat, Data = [''msg'' \<mapsto> Of_Value True]\<rparr>,
           \<lparr>Timestamp = 6, Data = [''bad'' \<mapsto> Of_Value False]\<rparr>,
           \<lparr>Timestamp = 7, Data = [''msg'' \<mapsto> Of_Value True]\<rparr>]) \<noteq> None"
proof -
  let ?r = "\<lparr>Timestamp = 5 :: nat, Data = [''msg'' \<mapsto> Of_Value True]\<rparr>"
  let ?X = "encodeRecords Map.empty [] [?r]"
  have h: "?X = (fst ?X, snd ?X)" by simp
  note t = encodeRecords_entries [OF h]
  note c4 = t [THEN conjunct2, THEN conjunct2, THEN conjunct2, THEN conjunct1]
  note c5 = t [THEN conjunct2, THEN conjunct2, THEN conjunct2, THEN conjunct2, THEN conjunct1]
  note c7 = t [THEN conjunct2, THEN conjunct2, THEN conjunct2, THEN conjunct2, THEN conjunct2,
               THEN conjunct2]
  have rej: "\<forall>i < length [?r]. Map.empty (recordEntry ([?r] ! i)) = None" by simp
  from c7 rej have e: "fst ?X = None" by (rule iffD2)
  note l = c5 [THEN mp, OF e]
  from c4 [unfolded l, rule_format, of 0] have q: "snd ?X ! 0 = recordEntry ?r"
    by (simp del: encodeRecords.simps)
  have x: "(snd ?X ! 0) ''time'' = Some (Of_Timestamp 5)"
    "(snd ?X ! 0) ''msg'' = Some (Of_Value True)"
    unfolding q by (simp_all add: recordEntry_def)
  let ?rej = "\<lambda>e :: (nat, bool) entry. if e ''bad'' = None then None else Some (Error ''unsupported value'')"
  let ?rs = "[?r, \<lparr>Timestamp = 6, Data = [''bad'' \<mapsto> Of_Value False]\<rparr>,
              \<lparr>Timestamp = 7, Data = [''msg'' \<mapsto> Of_Value True]\<rparr>]"
  let ?Y = "encodeRecords ?rej [] ?rs"
  have hy: "?Y = (fst ?Y, snd ?Y)" by simp
  note d7 = encodeRecords_entries [OF hy, THEN conjunct2, THEN conjunct2, THEN conjunct2,
              THEN conjunct2, THEN conjunct2, THEN conjunct2]
  have nr: "\<not> (\<forall>i < length ?rs. ?rej (recordEntry (?rs ! i)) = None)"
  proof
    assume "\<forall>i < length ?rs. ?rej (recordEntry (?rs ! i)) = None"
    from this [rule_format, of 1] show False by (simp add: recordEntry_def)
  qed
  have y: "fst ?Y \<noteq> None"
  proof
    assume "fst ?Y = None"
    with d7 have "\<forall>i < length ?rs. ?rej (recordEntry (?rs ! i)) = None" by (rule iffD1)
    with nr show False ..
  qed
  from e x y show ?thesis by (intro conjI)
qed

text \<open>
  Claim C5 as stated fails for a record whose \<open>Data\<close> has the key \<^verbatim>\<open>time\<close>: the loop over
  \<open>Data\<close> runs after \<^verbatim>\<open>time\<close> was set and overwrites it, so the encoded map carries the
  field's value under \<^verbatim>\<open>time\<close> and the record's timestamp is not in it.
\<close>

theorem encodeRecords_time_counterexample:
  "fst (encodeRecords Map.empty []
          [\<lparr>Timestamp = 5 :: nat, Data = [''time'' \<mapsto> Of_Value True]\<rparr>]) = None
   \<and> length (snd (encodeRecords Map.empty []
          [\<lparr>Timestamp = 5 :: nat, Data = [''time'' \<mapsto> Of_Value True]\<rparr>])) = 1
   \<and> (snd (encodeRecords Map.empty []
          [\<lparr>Timestamp = 5 :: nat, Data = [''time'' \<mapsto> Of_Value True]\<rparr>]) ! 0) ''time''
       = Some (Of_Value True)
   \<and> (snd (encodeRecords Map.empty []
          [\<lparr>Timestamp = 5 :: nat, Data = [''time'' \<mapsto> Of_Value True]\<rparr>]) ! 0) ''time''
       \<noteq> Some (Of_Timestamp 5)"
  by (simp add: Encode_def recordEntry_def)

section \<open>Properties of the output facade\<close>

lemma Emit_loop_closed:
  "closed ch \<Longrightarrow> recordSets \<noteq> [] \<Longrightarrow>
   Emit_loop ch recordSets = (Some (Panic ''send on closed channel''), ch)"
  by (cases recordSets) (simp_all add: chan_send_def)

lemma Emit_returns_nil: "fst (Emit output recordSets) = Inr None"
  by (simp add: Emit_def split: prod.split option.split)

lemma Emit_closed:
  assumes "closed (emitterChan output)"
  shows "Emit output recordSets = (Inr None, output)"
proof (cases "recordSets = []")
  case True
  then show ?thesis by (simp add: Emit_def)
next
  case False
  with assms show ?thesis by (simp add: Emit_def Emit_loop_closed)
qed

text \<open>
  Claim C6: on an output whose inbound channel is closed, \<^verbatim>\<open>Emit\<close> returns \<^verbatim>\<open>nil\<close> for
  every slice of record sets, lets no panic out and leaves the output as it was. \<^verbatim>\<open>Emit\<close>
  returns \<^verbatim>\<open>nil\<close> in every state, and the state after a \<^verbatim>\<open>Stop\<close> that found the pointer
  at 0 has the channel closed.
\<close>

theorem Emit_after_Stop_is_noop:
  "(closed (emitterChan output) \<longrightarrow> Emit output recordSets = (Inr None, output))
   \<and> fst (Emit output recordSets) = Inr None
   \<and> (isShuttingDown output = 0 \<and> Stop output = Inr output' \<longrightarrow>
        Emit output' recordSets = (Inr None, output'))"
proof (intro conjI impI)
  assume "closed (emitterChan output)"
  then show "Emit output recordSets = (Inr None, output)" by (rule Emit_closed)
next
  show "fst (Emit output recordSets) = Inr None" by (rule Emit_returns_nil)
next
  assume "isShuttingDown output = 0 \<and> Stop output = Inr output'"
  then have "closed (emitterChan output')"
    by (auto simp add: Stop_def CompareAndSwapPointer_def chan_close_def Let_def split: if_splits)
  then show "Emit output' recordSets = (Inr None, output')" by (rule Emit_closed)
qed

text \<open>The theorem at the new output after one \<^verbatim>\<open>Stop\<close>, with one record set.\<close>

theorem Emit_after_Stop_is_noop_witness:
  "Stop (NewTDOutput :: (nat, bool) FluentRecordSet TDOutput)
     = Inr \<lparr>emitterChan = \<lparr>closed = True, queue = []\<rparr>, isShuttingDown = 1\<rparr>
   \<and> Emit \<lparr>emitterChan = \<lparr>closed = True, queue = []\<rparr>, isShuttingDown = 1\<rparr>
        [\<lparr>Tag = ''app.web'', Records = [] :: (nat, bool) TinyFluentRecord list\<rparr>]
     = (Inr None, \<lparr>emitterChan = \<lparr>closed = True, queue = []\<rparr>, isShuttingDown = 1\<rparr>)"
proof -
  let ?s = "\<lparr>emitterChan = \<lparr>closed = True, queue = []\<rparr>, isShuttingDown = 1\<rparr>
              :: (nat, bool) FluentRecordSet TDOutput"
  have s: "Stop (NewTDOutput :: (nat, bool) FluentRecordSet TDOutput) = Inr ?s"
    by (simp add: Stop_def NewTDOutput_def CompareAndSwapPointer_def chan_close_def)
  have z: "isShuttingDown (NewTDOutput :: (nat, bool) FluentRecordSet TDOutput) = 0"
    by (simp add: NewTDOutput_def)
  from Emit_after_Stop_is_noop
         [of NewTDOutput "[\<lparr>Tag = ''app.web'', Records = []\<rparr>]" ?s] s z
  show ?thesis by simp
qed

lemma Stop_first:
  assumes "isShuttingDown output = 0" "\<not> closed (emitterChan output)"
  shows "Stop output =
           Inr (output\<lparr>isShuttingDown := 1, emitterChan := (emitterChan output)\<lparr>closed := True\<rparr>\<rparr>)"
  using assms by (simp add: Stop_def CompareAndSwapPointer_def chan_close_def)

lemma Stop_again:
  assumes "isShuttingDown output \<noteq> 0"
  shows "Stop output = Inr output"
  using assms by (simp add: Stop_def CompareAndSwapPointer_def)

lemma Stop_times_again:
  "isShuttingDown output \<noteq> 0 \<Longrightarrow> Stop_times n output = Inr output"
  by (induction n) (simp_all add: Stop_again)

text \<open>
  Claim C7: \<^verbatim>\<open>Stop\<close> is idempotent. On an output with the pointer at 0 and the channel
  open (the state \<^verbatim>\<open>NewTDOutput\<close> creates; nothing but \<^verbatim>\<open>Stop\<close> closes the channel), the
  first call sets the pointer and closes the channel, and any number of calls gives the
  result of that one call; a second close of the channel would have panicked. On an
  output with the pointer set, and on the result of any call that returned, \<^verbatim>\<open>Stop\<close>
  returns without a panic and leaves the output unchanged.
\<close>

theorem Stop_idempotent:
  "(isShuttingDown output = 0 \<and> \<not> closed (emitterChan output) \<longrightarrow>
      Stop output =
        Inr (output\<lparr>isShuttingDown := 1, emitterChan := (emitterChan output)\<lparr>closed := True\<rparr>\<rparr>)
      \<and> Stop_times (Suc n) output = Stop output
      \<and> chan_close ((emitterChan output)\<lparr>closed := True\<rparr>)
          = Inl (Panic ''close of closed channel''))
   \<and> (isShuttingDown output \<noteq> 0 \<longrightarrow>
        Stop output = Inr output \<and> Stop_times n output = Inr output)
   \<and> (Stop output = Inr output' \<longrightarrow> Stop_times n output' = Inr output')"
proof (intro conjI impI)
  assume a: "isShuttingDown output = 0 \<and> \<not> closed (emitterChan output)"
  then show f: "Stop output =
        Inr (output\<lparr>isShuttingDown := 1, emitterChan := (emitterChan output)\<lparr>closed := True\<rparr>\<rparr>)"
    by (simp add: Stop_first)
  show "Stop_times (Suc n) output = Stop output"
    by (simp add: f Stop_times_again)
  show "chan_close ((emitterChan output)\<lparr>closed := True\<rparr>) = Inl (Panic ''close of closed channel'')"
    by (simp add: chan_close_def)
next
  assume a: "isShuttingDown output \<noteq> 0"
  then show "Stop output = Inr output" by (rule Stop_again)
  from a show "Stop_times n output = Inr output" by (rule Stop_times_again)
next
  assume "Stop output = Inr output'"
  then have "isShuttingDown output' \<noteq> 0"
    by (auto simp add: Stop_def CompareAndSwapPointer_def Let_def split: if_splits sum.splits)
  then show "Stop_times n output' = Inr output'" by (rule Stop_times_again)
qed

text \<open>The theorem at the new output: one call, three calls, and a call after that.\<close>

theorem Stop_idempotent_witness:
  "Stop (NewTDOutput :: nat TDOutput)
     = Inr \<lparr>emitterChan = \<lparr>closed = True, queue = []\<rparr>, isShuttingDown = 1\<rparr>
   \<and> Stop_times 3 (NewTDOutput :: nat TDOutput) = Stop NewTDOutput
   \<and> Stop \<lparr>emitterChan = \<lparr>closed = True, queue = [] :: nat list\<rparr>, isShuttingDown = 1\<rparr>
       = Inr \<lparr>emitterChan = \<lparr>closed = True, queue = []\<rparr>, isShuttingDown = 1\<rparr>"
proof -
  let ?s = "\<lparr>emitterChan = \<lparr>closed = True, queue = []\<rparr>, isShuttingDown = 1\<rparr> :: nat TDOutput"
  have z: "isShuttingDown (NewTDOutput :: nat TDOutput) = 0
             \<and> \<not> closed (emitterChan (NewTDOutput :: nat TDOutput))"
    by (simp add: NewTDOutput_def)
  note t = Stop_idempotent [of "NewTDOutput :: nat TDOutput" 2, THEN conjunct1, THEN mp, OF z]
  have u: "(NewTDOutput :: nat TDOutput)
             \<lparr>isShuttingDown := 1, emitterChan := (emitterChan NewTDOutput)\<lparr>closed := True\<rparr>\<rparr> = ?s"
    by (simp add: NewTDOutput_def)
  have "isShuttingDown ?s \<noteq> 0" by simp
  note v = Stop_idempotent [of ?s 0, THEN conjunct2, THEN conjunct1, THEN mp, OF this]
  from t u v show ?thesis by (simp add: numeral_3_eq_3 del: Stop_times.simps)
qed

section \<open>Properties of the flush handler\<close>

text \<open>
  Claim C8: whatever \<^verbatim>\<open>Import\<close> does (return \<^verbatim>\<open>nil\<close>, return an error, or panic), one
  invocation of the handler calls \<^verbatim>\<open>Dispose\<close> exactly once, on the chunk it was given
  and as its last action, after the single call of \<^verbatim>\<open>Import\<close>; and the handler's outcome
  is the outcome of \<^verbatim>\<open>Import\<close>, so an error of the upload is what \<^verbatim>\<open>Flush\<close> receives.
\<close>

theorem flushHandler_disposes_once:
  "filter is_Chunk_Dispose (snd (flushHandler Import spooler chunk))
     = [Chunk_Dispose (chunk_Id chunk)]
   \<and> last (snd (flushHandler Import spooler chunk)) = Chunk_Dispose (chunk_Id chunk)
   \<and> filter is_Client_Import (snd (flushHandler Import spooler chunk))
       = [Client_Import (databaseName spooler) (tableName spooler) ''msgpack.gz''
            (chunk_Id chunk) (chunk_Id chunk)]
   \<and> fst (flushHandler Import spooler chunk)
       = Import (databaseName spooler) (tableName spooler) ''msgpack.gz''
           (chunk_Id chunk) (chunk_Id chunk)"
  by (simp add: flushHandler_def deferring_def Let_def)

end
